theory Spec2Isabelle
  imports Main
begin

section \<open>The sparse vector of \<open>sparse_vector.hpp\<close>\<close>

text \<open>
  A shallow embedding of the class \<open>sv::sparse_vector\<close>. The container owns a raw buffer
  \<open>data_\<close> of \<open>value_info\<close> cells, the counters \<open>size_\<close> and \<open>capacity_\<close> and the vector
  \<open>freeIndeces_\<close> of reusable indices. Every member function becomes a function from the
  state to either an error or the new state (and the returned value, where there is one).

  The buffer comes from the allocator as raw memory. A cell therefore records, for each
  of its two fields, whether it has been written: \<open>cell_value = None\<close> is storage that
  holds no constructed object, \<open>cell_exist = None\<close> is a flag that was never assigned.
  \<open>size_type\<close> is modelled by \<open>nat\<close>: no statement below depends on the wrap-around of
  \<open>std::size_t\<close>. Allocation is taken to succeed. The move constructor and the
  destructor, which no statement below is about, are left out; \<open>const_iterator\<close> repeats
  the code of \<open>iterator\<close>.
\<close>

subsection \<open>Errors\<close>

text \<open>
  \<open>out_of_range m\<close> is the exception \<open>std::out_of_range(m)\<close> thrown by the code. The
  other outcomes are what C++ leaves undefined: an access outside the allocated buffer,
  the read of a field that was never written, and a destructor call on storage that
  holds no object.
\<close>

datatype error =
    out_of_range string
  | out_of_bounds_access
  | uninitialized_read
  | destroyed_no_object

definition bind_err :: "error + 'a \<Rightarrow> ('a \<Rightarrow> error + 'b) \<Rightarrow> error + 'b" where
  "bind_err m f = (case m of Inl e \<Rightarrow> Inl e | Inr x \<Rightarrow> f x)"

subsection \<open>Cells and the container state\<close>

record 'a value_info =
  cell_value :: "'a option"
  cell_exist :: "bool option"

record 'a sparse_vector =
  sv_data :: "'a value_info list"
  sv_size :: nat
  sv_capacity :: nat
  sv_freeIndeces :: "nat list"

text \<open>\<open>allocator_.allocate(n)\<close>: \<open>n\<close> cells of raw memory.\<close>

definition allocate :: "nat \<Rightarrow> 'a value_info list" where
  "allocate n = replicate n \<lparr>cell_value = None, cell_exist = None\<rparr>"

text \<open>Reads and writes of the fields of \<open>data_[i]\<close>.\<close>

definition read_exist :: "'a value_info list \<Rightarrow> nat \<Rightarrow> error + bool" where
  "read_exist d i =
     (if i < length d
      then (case cell_exist (d ! i) of None \<Rightarrow> Inl uninitialized_read | Some b \<Rightarrow> Inr b)
      else Inl out_of_bounds_access)"

definition read_value :: "'a value_info list \<Rightarrow> nat \<Rightarrow> error + 'a" where
  "read_value d i =
     (if i < length d
      then (case cell_value (d ! i) of None \<Rightarrow> Inl uninitialized_read | Some v \<Rightarrow> Inr v)
      else Inl out_of_bounds_access)"

definition set_exist :: "nat \<Rightarrow> bool \<Rightarrow> 'a value_info list \<Rightarrow> error + 'a value_info list" where
  "set_exist i b d =
     (if i < length d then Inr (d[i := (d ! i)\<lparr>cell_exist := Some b\<rparr>])
      else Inl out_of_bounds_access)"

text \<open>
  Placement new, \<open>new(&cell.value)value_type(v)\<close>, and the explicit destructor call
  \<open>cell.value.~value_type()\<close>. Placement new over a live object replaces it. A
  destructor call on storage that holds no object is undefined; \<open>erase_at\<close> and \<open>clear\<close>
  test the flag before the call, \<open>pop_back\<close> does not.
\<close>

definition construct_value :: "nat \<Rightarrow> 'a \<Rightarrow> 'a value_info list \<Rightarrow> error + 'a value_info list" where
  "construct_value i v d =
     (if i < length d then Inr (d[i := (d ! i)\<lparr>cell_value := Some v\<rparr>])
      else Inl out_of_bounds_access)"

definition destroy_value :: "nat \<Rightarrow> 'a value_info list \<Rightarrow> error + 'a value_info list" where
  "destroy_value i d =
     (if i < length d
      then (case cell_value (d ! i) of
              None \<Rightarrow> Inl destroyed_no_object
            | Some v \<Rightarrow> Inr (d[i := (d ! i)\<lparr>cell_value := None\<rparr>]))
      else Inl out_of_bounds_access)"

text \<open>
  \<open>details::move_place(dst, src)\<close>: the object in \<open>src\<close> is moved (or copied and then
  destroyed) into \<open>dst\<close>. The source buffer is released afterwards, so only the
  destination is kept.
\<close>

definition move_place :: "nat \<Rightarrow> 'a value_info list \<Rightarrow> 'a value_info list \<Rightarrow> error + 'a value_info list" where
  "move_place i src dst =
     (if i < length src \<and> i < length dst
      then Inr (dst[i := (dst ! i)\<lparr>cell_value := cell_value (src ! i)\<rparr>])
      else Inl out_of_bounds_access)"

subsection \<open>Loops\<close>

text \<open>\<open>for (size_type i = a; i < n; ++i) body\<close>, stopping at the first failure.\<close>

function for_loop :: "nat \<Rightarrow> nat \<Rightarrow> (nat \<Rightarrow> 'st \<Rightarrow> error + 'st) \<Rightarrow> 'st \<Rightarrow> error + 'st" where
  "for_loop i n body st =
     (if i < n
      then (case body i st of Inl e \<Rightarrow> Inl e | Inr st' \<Rightarrow> for_loop (Suc i) n body st')
      else Inr st)"
  by pat_completeness auto
termination
  by (relation "measure (\<lambda>(i, n, body, st). n - i)") auto

declare for_loop.simps [simp del]

subsection \<open>Private members\<close>

definition reallocate_body :: "'a value_info list \<Rightarrow> nat \<Rightarrow> 'a value_info list \<Rightarrow> error + 'a value_info list" where
  "reallocate_body old i newData =
     bind_err (read_exist old i) (\<lambda>e.
       if \<not> e then set_exist i False newData
       else bind_err (move_place i old newData) (set_exist i True))"

definition reallocate :: "nat \<Rightarrow> 'a sparse_vector \<Rightarrow> error + 'a sparse_vector" where
  "reallocate newCapacity s =
     bind_err (for_loop 0 (sv_size s) (reallocate_body (sv_data s)) (allocate newCapacity))
       (\<lambda>newData. Inr (s\<lparr>sv_data := newData, sv_capacity := newCapacity\<rparr>))"

definition mark_as_free :: "nat \<Rightarrow> 'a sparse_vector \<Rightarrow> error + 'a sparse_vector" where
  "mark_as_free i s =
     bind_err (set_exist i False (sv_data s))
       (\<lambda>d. Inr (s\<lparr>sv_data := d, sv_freeIndeces := sv_freeIndeces s @ [i]\<rparr>))"

subsection \<open>Constructors\<close>

text \<open>\<open>sparse_vector()\<close>\<close>

definition sparse_vector_default :: "'a sparse_vector" where
  "sparse_vector_default =
     \<lparr>sv_data = allocate 2, sv_size = 0, sv_capacity = 2, sv_freeIndeces = []\<rparr>"

text \<open>\<open>sparse_vector(std::initializer_list<value_type> other)\<close>\<close>

definition init_body :: "'a list \<Rightarrow> nat \<Rightarrow> 'a value_info list \<Rightarrow> error + 'a value_info list" where
  "init_body other i d =
     (if i < length other
      then bind_err (construct_value i (other ! i) d) (set_exist i True)
      else Inl out_of_bounds_access)"

definition sparse_vector_init :: "'a list \<Rightarrow> error + 'a sparse_vector" where
  "sparse_vector_init other =
     bind_err (for_loop 0 (length other) (init_body other) (allocate (length other)))
       (\<lambda>d. Inr \<lparr>sv_data = d, sv_size = length other, sv_capacity = length other,
                 sv_freeIndeces = []\<rparr>)"

text \<open>\<open>sparse_vector(const sparse_vector& other)\<close>\<close>

definition copy_body :: "'a value_info list \<Rightarrow> nat \<Rightarrow> 'a value_info list \<Rightarrow> error + 'a value_info list" where
  "copy_body other i d =
     bind_err (read_exist other i) (\<lambda>e.
       if \<not> e then set_exist i False d
       else bind_err (read_value other i) (\<lambda>v.
              bind_err (construct_value i v d) (set_exist i True)))"

definition sparse_vector_copy :: "'a sparse_vector \<Rightarrow> error + 'a sparse_vector" where
  "sparse_vector_copy other =
     bind_err (for_loop 0 (sv_size other) (copy_body (sv_data other)) (allocate (sv_capacity other)))
       (\<lambda>d. Inr \<lparr>sv_data = d, sv_size = sv_size other, sv_capacity = sv_capacity other,
                 sv_freeIndeces = sv_freeIndeces other\<rparr>)"

subsection \<open>Public members\<close>

definition push_free :: "'a \<Rightarrow> 'a sparse_vector \<Rightarrow> error + (nat \<times> 'a sparse_vector)" where
  "push_free val s =
     bind_err
       (if sv_freeIndeces s = []
        then bind_err (if sv_size s = sv_capacity s then reallocate (sv_capacity s * 2) s else Inr s)
               (\<lambda>s1. Inr (sv_size s1, s1\<lparr>sv_size := Suc (sv_size s1)\<rparr>))
        else Inr (last (sv_freeIndeces s), s\<lparr>sv_freeIndeces := butlast (sv_freeIndeces s)\<rparr>))
       (\<lambda>(index, s2).
          bind_err (construct_value index val (sv_data s2)) (\<lambda>d.
          bind_err (set_exist index True d) (\<lambda>d'.
          Inr (index, s2\<lparr>sv_data := d'\<rparr>))))"

text \<open>
  \<open>emplace_free(args...)\<close> has the body of \<open>push_free\<close>, the value being constructed from
  the forwarded arguments; the model takes the constructed value.
\<close>

definition emplace_free :: "'a \<Rightarrow> 'a sparse_vector \<Rightarrow> error + (nat \<times> 'a sparse_vector)" where
  "emplace_free args s =
     bind_err
       (if sv_freeIndeces s = []
        then bind_err (if sv_size s = sv_capacity s then reallocate (sv_capacity s * 2) s else Inr s)
               (\<lambda>s1. Inr (sv_size s1, s1\<lparr>sv_size := Suc (sv_size s1)\<rparr>))
        else Inr (last (sv_freeIndeces s), s\<lparr>sv_freeIndeces := butlast (sv_freeIndeces s)\<rparr>))
       (\<lambda>(index, s2).
          bind_err (construct_value index args (sv_data s2)) (\<lambda>d.
          bind_err (set_exist index True d) (\<lambda>d'.
          Inr (index, s2\<lparr>sv_data := d'\<rparr>))))"

definition erase_at :: "nat \<Rightarrow> 'a sparse_vector \<Rightarrow> error + 'a sparse_vector" where
  "erase_at index s =
     (if index > sv_size s
      then Inl (out_of_range ''out of sparse_vector range on erase_at.'')
      else bind_err (read_exist (sv_data s) index) (\<lambda>e.
        if \<not> e
        then Inl (out_of_range ''value doesnt exist in sparse_vector on this index. erase_at.'')
        else bind_err (destroy_value index (sv_data s)) (\<lambda>d.
               mark_as_free index (s\<lparr>sv_data := d\<rparr>))))"

definition pop_back :: "'a sparse_vector \<Rightarrow> error + 'a sparse_vector" where
  "pop_back s =
     (if sv_size s = 0
      then Inl (out_of_range ''sparse_vector is empty on pop_back.'')
      else let s1 = s\<lparr>sv_size := sv_size s - 1\<rparr> in
        bind_err (destroy_value (sv_size s1) (sv_data s1)) (\<lambda>d.
        bind_err (set_exist (sv_size s1) False d) (\<lambda>d'.
        Inr (s1\<lparr>sv_data := d'\<rparr>))))"

text \<open>
  \<open>feel_free_cells(funct)\<close>: the function object is taken by value and called without
  arguments, once per free cell. It may carry state of its own, so it is modelled by the
  sequence of its results: \<open>funct k\<close> is what the call number \<open>k\<close> returns. The loop
  counts the calls made so far.
\<close>

definition feel_body :: "(nat \<Rightarrow> 'a) \<Rightarrow> nat \<Rightarrow> 'a value_info list \<times> nat \<Rightarrow> error + ('a value_info list \<times> nat)" where
  "feel_body funct i = (\<lambda>(d, calls).
     bind_err (read_exist d i) (\<lambda>e.
       if \<not> e
       then bind_err (construct_value i (funct calls) d) (\<lambda>d1.
            bind_err (set_exist i True d1) (\<lambda>d2. Inr (d2, Suc calls)))
       else Inr (d, calls)))"

definition feel_free_cells :: "(nat \<Rightarrow> 'a) \<Rightarrow> 'a sparse_vector \<Rightarrow> error + 'a sparse_vector" where
  "feel_free_cells funct s =
     bind_err (for_loop 0 (sv_size s) (feel_body funct) (sv_data s, 0))
       (\<lambda>(d, calls). Inr (s\<lparr>sv_data := d, sv_freeIndeces := []\<rparr>))"

definition reserve :: "nat \<Rightarrow> 'a sparse_vector \<Rightarrow> error + 'a sparse_vector" where
  "reserve newCapacity s =
     (if sv_capacity s \<ge> newCapacity then Inr s else reallocate newCapacity s)"

definition resize :: "nat \<Rightarrow> 'a sparse_vector \<Rightarrow> error + 'a sparse_vector" where
  "resize newSize s =
     bind_err (reserve newSize s) (\<lambda>s1.
     bind_err (for_loop (sv_size s1) newSize mark_as_free s1) (\<lambda>s2.
     Inr (s2\<lparr>sv_size := newSize\<rparr>)))"

definition exist_at :: "nat \<Rightarrow> 'a sparse_vector \<Rightarrow> error + bool" where
  "exist_at i s =
     (if sv_size s \<le> i then Inr False
      else bind_err (read_exist (sv_data s) i) (\<lambda>e.
        if \<not> e then Inr False else Inr True))"

definition emplace_at :: "nat \<Rightarrow> 'a \<Rightarrow> 'a sparse_vector \<Rightarrow> error + 'a sparse_vector" where
  "emplace_at i args s =
     (if sv_size s \<le> i
      then Inl (out_of_range ''index out of sparse_vector size on put_at.'')
      else bind_err (read_exist (sv_data s) i) (\<lambda>e.
        if \<not> e
        then Inl (out_of_range ''value already exist in sparse_vector on this index. put_at.'')
        else bind_err (construct_value i args (sv_data s)) (\<lambda>d.
             bind_err (set_exist i True d) (\<lambda>d'.
             Inr (s\<lparr>sv_data := d'\<rparr>)))))"

definition clear_body :: "nat \<Rightarrow> 'a value_info list \<Rightarrow> error + 'a value_info list" where
  "clear_body i d =
     bind_err (read_exist d i) (\<lambda>e.
       if e then bind_err (destroy_value i d) (set_exist i False)
       else Inr d)"

definition clear :: "'a sparse_vector \<Rightarrow> error + 'a sparse_vector" where
  "clear s =
     bind_err (for_loop 0 (sv_size s) clear_body (sv_data s))
       (\<lambda>d. Inr (s\<lparr>sv_data := d, sv_freeIndeces := [], sv_size := 0\<rparr>))"

definition get_free_cells :: "'a sparse_vector \<Rightarrow> nat list" where
  "get_free_cells s = sv_freeIndeces s"

definition at :: "nat \<Rightarrow> 'a sparse_vector \<Rightarrow> error + 'a" where
  "at i s =
     (if sv_size s \<le> i
      then Inl (out_of_range ''index out of sparse_vector size on at.'')
      else bind_err (read_exist (sv_data s) i) (\<lambda>e.
        if \<not> e
        then Inl (out_of_range ''value doesnt exist in sparse_vector on this index. at.'')
        else read_value (sv_data s) i))"

subsection \<open>Iterators\<close>

text \<open>
  An iterator holds two pointers into the buffer; they are modelled by their offsets
  from \<open>data_\<close>.
\<close>

record iterator =
  ptr :: nat
  endPtr :: nat

text \<open>The loop \<open>while ((ptr_ != endPtr_) && !ptr_->exist) ++ptr_\<close>.\<close>

function skip_free :: "'a value_info list \<Rightarrow> nat \<Rightarrow> nat \<Rightarrow> error + nat" where
  "skip_free d p e =
     (if p \<noteq> e
      then (case read_exist d p of
              Inl er \<Rightarrow> Inl er
            | Inr b \<Rightarrow> if \<not> b then skip_free d (Suc p) e else Inr p)
      else Inr p)"
  by pat_completeness auto
termination
  by (relation "measure (\<lambda>(d, p, e). length d - p)")
     (auto simp: read_exist_def split: if_splits)

declare skip_free.simps [simp del]

definition iterator_ctor :: "'a value_info list \<Rightarrow> nat \<Rightarrow> nat \<Rightarrow> error + iterator" where
  "iterator_ctor d p e = bind_err (skip_free d p e) (\<lambda>p'. Inr \<lparr>ptr = p', endPtr = e\<rparr>)"

definition iterator_deref :: "'a value_info list \<Rightarrow> iterator \<Rightarrow> error + 'a" where
  "iterator_deref d it = read_value d (ptr it)"

definition iterator_incr :: "'a value_info list \<Rightarrow> iterator \<Rightarrow> error + iterator" where
  "iterator_incr d it =
     bind_err (skip_free d (Suc (ptr it)) (endPtr it)) (\<lambda>p'. Inr (it\<lparr>ptr := p'\<rparr>))"

definition iterator_neq :: "iterator \<Rightarrow> iterator \<Rightarrow> bool" where
  "iterator_neq a b = (ptr a \<noteq> ptr b)"

definition begin_it :: "'a sparse_vector \<Rightarrow> error + iterator" where
  "begin_it s = iterator_ctor (sv_data s) 0 (sv_size s)"

definition end_it :: "'a sparse_vector \<Rightarrow> error + iterator" where
  "end_it s = iterator_ctor (sv_data s) (sv_size s) (sv_size s)"

text \<open>
  The range-based loop \<open>for (auto& x : v)\<close>: from \<open>it = begin()\<close>, while \<open>it != end()\<close>,
  take \<open>*it\<close> and advance with \<open>++it\<close>. The values visited are collected in order.
\<close>

function iterate :: "'a value_info list \<Rightarrow> iterator \<Rightarrow> iterator \<Rightarrow> error + 'a list" where
  "iterate d it e =
     (if iterator_neq it e
      then (case iterator_deref d it of
              Inl er \<Rightarrow> Inl er
            | Inr v \<Rightarrow> (case iterator_incr d it of
                 Inl er \<Rightarrow> Inl er
               | Inr it' \<Rightarrow> (case iterate d it' e of
                    Inl er \<Rightarrow> Inl er
                  | Inr vs \<Rightarrow> Inr (v # vs))))
      else Inr [])"
  by pat_completeness auto
termination
proof -
  have mono: "skip_free d p e = Inr p' \<Longrightarrow> p \<le> p'" for d :: "'a value_info list" and p e p'
  proof (induction d p e rule: skip_free.induct)
    case (1 d p e)
    from "1.prems" show ?case
    proof (subst (asm) skip_free.simps, simp split: if_splits sum.splits)
      assume "read_exist d p = Inr False" and "skip_free d (Suc p) e = Inr p'" and "p \<noteq> e"
      then have "Suc p \<le> p'" using "1.IH" by simp
      then show "p \<le> p'" by simp
    qed
  qed
  show ?thesis
    by (relation "measure (\<lambda>(d, it, e). length d - ptr it)")
       (auto simp: iterator_deref_def iterator_incr_def read_value_def bind_err_def
             split: if_splits sum.splits dest!: mono)
qed

declare iterate.simps [simp del]

definition range_for :: "'a sparse_vector \<Rightarrow> error + 'a list" where
  "range_for s =
     bind_err (begin_it s) (\<lambda>b.
     bind_err (end_it s) (\<lambda>e.
     iterate (sv_data s) b e))"

subsection \<open>The public mutating operations as one step function\<close>

datatype 'a operation =
    Push_free 'a
  | Emplace_free 'a
  | Erase_at nat
  | Pop_back
  | Feel_free_cells "nat \<Rightarrow> 'a"
  | Reserve nat
  | Resize nat
  | Emplace_at nat 'a
  | Clear

fun run_op :: "'a operation \<Rightarrow> 'a sparse_vector \<Rightarrow> error + 'a sparse_vector" where
  "run_op (Push_free v) s = bind_err (push_free v s) (\<lambda>(i, s'). Inr s')"
| "run_op (Emplace_free v) s = bind_err (emplace_free v s) (\<lambda>(i, s'). Inr s')"
| "run_op (Erase_at i) s = erase_at i s"
| "run_op Pop_back s = pop_back s"
| "run_op (Feel_free_cells funct) s = feel_free_cells funct s"
| "run_op (Reserve n) s = reserve n s"
| "run_op (Resize n) s = resize n s"
| "run_op (Emplace_at i v) s = emplace_at i v s"
| "run_op Clear s = clear s"

text \<open>
  The containers a program can build: from a constructor, by any sequence of public
  operations that return normally.
\<close>

inductive reachable :: "'a sparse_vector \<Rightarrow> bool" where
  reachable_default: "reachable sparse_vector_default"
| reachable_init: "sparse_vector_init other = Inr s \<Longrightarrow> reachable s"
| reachable_copy: "reachable s \<Longrightarrow> sparse_vector_copy s = Inr s' \<Longrightarrow> reachable s'"
| reachable_step: "reachable s \<Longrightarrow> run_op op s = Inr s' \<Longrightarrow> reachable s'"

subsection \<open>Invariants and observations used in the statements\<close>

text \<open>
  The representation invariant the member functions rely on for memory safety: the
  buffer has \<open>capacity_\<close> cells, \<open>size_\<close> does not exceed it, every recorded free index
  lies inside the buffer, and every cell below \<open>size_\<close> has an assigned flag, a set flag
  coming with a constructed value. The constructors establish it and every public
  operation that returns normally keeps it (\<open>reachable_well_formed\<close> below).
\<close>

definition well_formed :: "'a sparse_vector \<Rightarrow> bool" where
  "well_formed s \<longleftrightarrow>
     length (sv_data s) = sv_capacity s \<and>
     sv_size s \<le> sv_capacity s \<and>
     (\<forall>j \<in> set (sv_freeIndeces s). j < sv_capacity s) \<and>
     (\<forall>i < sv_size s. cell_exist (sv_data s ! i) \<noteq> None \<and>
        (cell_exist (sv_data s ! i) = Some True \<longrightarrow> cell_value (sv_data s ! i) \<noteq> None))"

text \<open>
  The invariant the specification states for the free-index store: only indices below
  the size, each at most once, each of a cell whose flag is clear.
\<close>

definition free_list_inv :: "'a sparse_vector \<Rightarrow> bool" where
  "free_list_inv s \<longleftrightarrow>
     (\<forall>j \<in> set (sv_freeIndeces s). j < sv_size s) \<and>
     distinct (sv_freeIndeces s) \<and>
     (\<forall>j \<in> set (sv_freeIndeces s). cell_exist (sv_data s ! j) = Some False)"

text \<open>The values of the live cells of \<open>[0, size)\<close>, in ascending index order.\<close>

definition live_values :: "'a sparse_vector \<Rightarrow> 'a list" where
  "live_values s =
     map (\<lambda>i. the (cell_value (sv_data s ! i)))
       (filter (\<lambda>i. cell_exist (sv_data s ! i) = Some True) [0..<sv_size s])"

text \<open>What \<open>reallocate\<close> leaves in the new buffer for a cell of the old one.\<close>

definition relocated :: "'a value_info \<Rightarrow> 'a value_info" where
  "relocated c = (if cell_exist c = Some True then \<lparr>cell_value = cell_value c, cell_exist = Some True\<rparr>
     else \<lparr>cell_value = None, cell_exist = Some False\<rparr>)"

text \<open>A sequence of operations, stopping at the first one that fails.\<close>

fun run_ops :: "'a operation list \<Rightarrow> 'a sparse_vector \<Rightarrow> error + 'a sparse_vector" where
  "run_ops [] s = Inr s"
| "run_ops (op # ops) s = bind_err (run_op op s) (run_ops ops)"

text \<open>
  The number of free cells among the first \<open>k\<close> cells of a buffer: the number of calls
  \<open>feel_free_cells\<close> has made to its function object when it reaches index \<open>k\<close>.
\<close>

definition free_before :: "'a value_info list \<Rightarrow> nat \<Rightarrow> nat" where
  "free_before d k = length (filter (\<lambda>c. cell_exist c = Some False) (take k d))"

text \<open>The values of the live cells with index in \<open>[p, e)\<close>, in ascending index order.\<close>

definition live_from :: "'a value_info list \<Rightarrow> nat \<Rightarrow> nat \<Rightarrow> 'a list" where
  "live_from d p e =
     map (\<lambda>i. the (cell_value (d ! i))) (filter (\<lambda>i. cell_exist (d ! i) = Some True) [p..<e])"

section \<open>Basic facts\<close>

subsection \<open>Error propagation and loops\<close>

lemma bind_err_simps [simp]:
  "bind_err (Inl e) f = Inl e"
  "bind_err (Inr x) f = f x"
  by (simp_all add: bind_err_def)

lemma bind_err_Inr_iff: "bind_err m f = Inr y \<longleftrightarrow> (\<exists>x. m = Inr x \<and> f x = Inr y)"
  by (cases m) simp_all

lemma for_loop_stop: "n \<le> i \<Longrightarrow> for_loop i n body st = Inr st"
  by (simp add: for_loop.simps [of i n])

lemma for_loop_step:
  "i < n \<Longrightarrow> body i st = Inr st' \<Longrightarrow> for_loop i n body st = for_loop (Suc i) n body st'"
  by (simp add: for_loop.simps [of i n])

lemma for_loop_total:
  assumes "I i st" and "i \<le> n"
    and step: "\<And>j st. i \<le> j \<Longrightarrow> j < n \<Longrightarrow> I j st \<Longrightarrow> \<exists>st'. body j st = Inr st' \<and> I (Suc j) st'"
  shows "\<exists>st'. for_loop i n body st = Inr st' \<and> I n st'"
  using assms
proof (induction "n - i" arbitrary: i st)
  case 0
  then show ?case by (simp add: for_loop_stop)
next
  case (Suc k)
  then have lt: "i < n" by simp
  from Suc.prems(3) [OF le_refl lt Suc.prems(1)]
  obtain st1 where b: "body i st = Inr st1" and I1: "I (Suc i) st1" by blast
  have "\<exists>st'. for_loop (Suc i) n body st1 = Inr st' \<and> I n st'"
  proof (rule Suc.hyps(1))
    show "k = n - Suc i" using Suc.hyps(2) by simp
    show "I (Suc i) st1" by (rule I1)
    show "Suc i \<le> n" using lt by simp
    show "\<exists>st'. body j st = Inr st' \<and> I (Suc j) st'" if "Suc i \<le> j" "j < n" "I j st" for j st
      using that Suc.prems(3) [of j st] by simp
  qed
  then show ?case using lt b by (simp add: for_loop.simps [of i n])
qed

lemma for_loop_partial:
  assumes "for_loop i n body st = Inr st'" and "I i st" and "i \<le> n"
    and step: "\<And>j st st'. i \<le> j \<Longrightarrow> j < n \<Longrightarrow> I j st \<Longrightarrow> body j st = Inr st' \<Longrightarrow> I (Suc j) st'"
  shows "I n st'"
  using assms
proof (induction "n - i" arbitrary: i st)
  case 0
  then show ?case by (simp add: for_loop_stop)
next
  case (Suc k)
  then have lt: "i < n" by simp
  from Suc.prems(1) lt obtain st1 where b: "body i st = Inr st1"
    and rest: "for_loop (Suc i) n body st1 = Inr st'"
    by (auto simp: for_loop.simps [of i n] split: sum.splits)
  show ?case
  proof (rule Suc.hyps(1) [OF _ rest])
    show "k = n - Suc i" using Suc.hyps(2) by simp
    show "I (Suc i) st1" using Suc.prems(4) [OF le_refl lt Suc.prems(2) b] .
    show "Suc i \<le> n" using lt by simp
    show "I (Suc j) st'" if "Suc i \<le> j" "j < n" "I j st" "body j st = Inr st'" for j st st'
      using that Suc.prems(4) [of j st st'] by simp
  qed
qed

subsection \<open>Cells, allocation and relocation\<close>

lemma read_exist_Inr: "read_exist d i = Inr b \<longleftrightarrow> i < length d \<and> cell_exist (d ! i) = Some b"
  by (auto simp: read_exist_def split: option.splits)

lemma read_value_Inr: "read_value d i = Inr v \<longleftrightarrow> i < length d \<and> cell_value (d ! i) = Some v"
  by (auto simp: read_value_def split: option.splits)

lemma set_exist_Inr: "set_exist i b d = Inr d' \<longleftrightarrow> i < length d \<and> d' = d[i := (d ! i)\<lparr>cell_exist := Some b\<rparr>]"
  by (auto simp: set_exist_def)

lemma construct_value_Inr:
  "construct_value i v d = Inr d' \<longleftrightarrow> i < length d \<and> d' = d[i := (d ! i)\<lparr>cell_value := Some v\<rparr>]"
  by (auto simp: construct_value_def)

lemma destroy_value_Inr:
  "destroy_value i d = Inr d' \<longleftrightarrow>
     i < length d \<and> cell_value (d ! i) \<noteq> None \<and> d' = d[i := (d ! i)\<lparr>cell_value := None\<rparr>]"
  by (auto simp: destroy_value_def split: option.splits)

lemma destroy_value_object:
  "i < length d \<Longrightarrow> cell_value (d ! i) = Some v \<Longrightarrow>
     destroy_value i d = Inr (d[i := (d ! i)\<lparr>cell_value := None\<rparr>])"
  by (simp add: destroy_value_def)

lemma move_place_Inr:
  "move_place i src dst = Inr d' \<longleftrightarrow>
     i < length src \<and> i < length dst \<and> d' = dst[i := (dst ! i)\<lparr>cell_value := cell_value (src ! i)\<rparr>]"
  by (auto simp: move_place_def)

lemmas cell_ops_Inr =
  read_exist_Inr read_value_Inr set_exist_Inr construct_value_Inr destroy_value_Inr move_place_Inr

lemma allocate_length [simp]: "length (allocate n) = n"
  by (simp add: allocate_def)

lemma allocate_nth [simp]: "k < n \<Longrightarrow> allocate n ! k = \<lparr>cell_value = None, cell_exist = None\<rparr>"
  by (simp add: allocate_def)

lemma reallocate_body_step:
  assumes "j < length old" and "j < length d" and "cell_exist (old ! j) \<noteq> None"
    and "d ! j = \<lparr>cell_value = None, cell_exist = None\<rparr>"
  shows "reallocate_body old j d = Inr (d[j := relocated (old ! j)])"
  using assms
  by (cases "cell_exist (old ! j)")
     (auto simp: reallocate_body_def read_exist_def set_exist_def move_place_def relocated_def)

lemma reallocate_loop:
  assumes "n \<le> length old" and "n \<le> m" and "\<forall>k<n. cell_exist (old ! k) \<noteq> None"
  shows "\<exists>d. for_loop 0 n (reallocate_body old) (allocate m) = Inr d \<and> length d = m \<and>
           (\<forall>k<n. d ! k = relocated (old ! k)) \<and>
           (\<forall>k. n \<le> k \<and> k < m \<longrightarrow> d ! k = \<lparr>cell_value = None, cell_exist = None\<rparr>)"
proof -
  let ?I = "\<lambda>j d. length d = m \<and> (\<forall>k<j. d ! k = relocated (old ! k)) \<and>
              (\<forall>k. j \<le> k \<and> k < m \<longrightarrow> d ! k = \<lparr>cell_value = None, cell_exist = None\<rparr>)"
  have "\<exists>d. for_loop 0 n (reallocate_body old) (allocate m) = Inr d \<and> ?I n d"
  proof (rule for_loop_total [where I = ?I])
    show "?I 0 (allocate m)" by simp
    show "0 \<le> n" by simp
    show "\<exists>st'. reallocate_body old j d = Inr st' \<and> ?I (Suc j) st'"
      if "0 \<le> j" "j < n" "?I j d" for j d
    proof -
      have "reallocate_body old j d = Inr (d[j := relocated (old ! j)])"
        using that assms by (intro reallocate_body_step) auto
      moreover have "?I (Suc j) (d[j := relocated (old ! j)])"
        using that assms by (auto simp: nth_list_update less_Suc_eq)
      ultimately show ?thesis by blast
    qed
  qed
  then show ?thesis by blast
qed

lemma reallocate_total:
  assumes "well_formed s" and "sv_size s \<le> n"
  shows "\<exists>d. reallocate n s = Inr (s\<lparr>sv_data := d, sv_capacity := n\<rparr>) \<and> length d = n \<and>
           (\<forall>k<sv_size s. d ! k = relocated (sv_data s ! k)) \<and>
           (\<forall>k. sv_size s \<le> k \<and> k < n \<longrightarrow> d ! k = \<lparr>cell_value = None, cell_exist = None\<rparr>)"
proof -
  from assms have "\<exists>d. for_loop 0 (sv_size s) (reallocate_body (sv_data s)) (allocate n) = Inr d \<and>
      length d = n \<and> (\<forall>k<sv_size s. d ! k = relocated (sv_data s ! k)) \<and>
      (\<forall>k. sv_size s \<le> k \<and> k < n \<longrightarrow> d ! k = \<lparr>cell_value = None, cell_exist = None\<rparr>)"
    by (intro reallocate_loop) (auto simp: well_formed_def)
  then show ?thesis by (auto simp: reallocate_def)
qed

section \<open>Evaluation on concrete containers\<close>

lemmas sv_eval =
  push_free_def emplace_free_def erase_at_def pop_back_def feel_free_cells_def feel_body_def
  reserve_def resize_def exist_at_def emplace_at_def clear_def clear_body_def at_def
  reallocate_def reallocate_body_def mark_as_free_def sparse_vector_default_def
  read_exist_def read_value_def set_exist_def construct_value_def destroy_value_def
  move_place_def allocate_def for_loop.simps eval_nat_numeral

section \<open>Insertion at a given index\<close>

text \<open>
  Claim C1 (\<open>emplace_at\<close>). The specification has \<open>emplace_at(i, args...)\<close> construct the
  value into a free cell below the size and fail with an "already occupied" condition on
  a live cell. The guard in the code is \<open>if (!cell.exist) throw\<close>, with the message
  "value already exist": it is inverted. On the container obtained by \<open>resize(1)\<close> from
  an empty one, whose cell 0 is free, \<open>emplace_at(0, 7)\<close> throws that exception and
  constructs nothing; on the container obtained by \<open>push_free(10)\<close>, whose cell 0 is
  live, \<open>emplace_at(0, 7)\<close> does not fail and replaces the value. Only the range check
  behaves as specified.
\<close>

theorem emplace_at_guard_inverted:
  "resize 1 (sparse_vector_default :: nat sparse_vector) =
     Inr \<lparr>sv_data = [\<lparr>cell_value = None, cell_exist = Some False\<rparr>,
                     \<lparr>cell_value = None, cell_exist = None\<rparr>],
          sv_size = 1, sv_capacity = 2, sv_freeIndeces = [0]\<rparr> \<and>
   exist_at 0 \<lparr>sv_data = [\<lparr>cell_value = None :: nat option, cell_exist = Some False\<rparr>,
                          \<lparr>cell_value = None, cell_exist = None\<rparr>],
               sv_size = 1, sv_capacity = 2, sv_freeIndeces = [0]\<rparr> = Inr False \<and>
   emplace_at 0 (7 :: nat)
      \<lparr>sv_data = [\<lparr>cell_value = None, cell_exist = Some False\<rparr>,
                  \<lparr>cell_value = None, cell_exist = None\<rparr>],
       sv_size = 1, sv_capacity = 2, sv_freeIndeces = [0]\<rparr> =
     Inl (out_of_range ''value already exist in sparse_vector on this index. put_at.'') \<and>
   push_free (10 :: nat) sparse_vector_default =
     Inr (0, \<lparr>sv_data = [\<lparr>cell_value = Some 10, cell_exist = Some True\<rparr>,
                         \<lparr>cell_value = None, cell_exist = None\<rparr>],
              sv_size = 1, sv_capacity = 2, sv_freeIndeces = []\<rparr>) \<and>
   emplace_at 0 (7 :: nat)
      \<lparr>sv_data = [\<lparr>cell_value = Some 10, cell_exist = Some True\<rparr>,
                  \<lparr>cell_value = None, cell_exist = None\<rparr>],
       sv_size = 1, sv_capacity = 2, sv_freeIndeces = []\<rparr> =
     Inr \<lparr>sv_data = [\<lparr>cell_value = Some 7, cell_exist = Some True\<rparr>,
                     \<lparr>cell_value = None, cell_exist = None\<rparr>],
          sv_size = 1, sv_capacity = 2, sv_freeIndeces = []\<rparr> \<and>
   emplace_at 1 (7 :: nat)
      \<lparr>sv_data = [\<lparr>cell_value = Some 10, cell_exist = Some True\<rparr>,
                  \<lparr>cell_value = None, cell_exist = None\<rparr>],
       sv_size = 1, sv_capacity = 2, sv_freeIndeces = []\<rparr> =
     Inl (out_of_range ''index out of sparse_vector size on put_at.'')"
  by (simp add: sv_eval)

section \<open>Removal at a given index\<close>

text \<open>
  Claim C4 (\<open>erase_at\<close>). The specification has \<open>erase_at(i)\<close> fail with the out-of-range
  condition exactly when \<open>i \<ge> size\<close>. The code tests \<open>index > size_\<close>, where \<open>at\<close> and
  \<open>emplace_at\<close> test \<open>size_ <= i\<close>: at \<open>i = size\<close> the range check passes and the cell
  just past the size is used. After \<open>push_free(10)\<close>, \<open>push_free(20)\<close>, \<open>resize(1)\<close> the size
  is 1 and \<open>erase_at(1)\<close> returns normally, destroying the cell at index 1 and recording
  index 1 as free; after \<open>push_free(10)\<close>, \<open>push_free(20)\<close>, \<open>pop_back()\<close> it reports the
  "value doesnt exist" condition instead of the range one; on a new container
  \<open>erase_at(0)\<close> reads a flag that was never written. For \<open>i > size\<close> the range check
  fires as specified.
\<close>

theorem erase_at_accepts_index_size:
  "run_ops [Push_free 10, Push_free 20, Resize 1] sparse_vector_default =
     Inr \<lparr>sv_data = [\<lparr>cell_value = Some (10 :: nat), cell_exist = Some True\<rparr>,
                     \<lparr>cell_value = Some 20, cell_exist = Some True\<rparr>],
          sv_size = 1, sv_capacity = 2, sv_freeIndeces = []\<rparr> \<and>
   erase_at 1
      \<lparr>sv_data = [\<lparr>cell_value = Some (10 :: nat), cell_exist = Some True\<rparr>,
                  \<lparr>cell_value = Some 20, cell_exist = Some True\<rparr>],
       sv_size = 1, sv_capacity = 2, sv_freeIndeces = []\<rparr> =
     Inr \<lparr>sv_data = [\<lparr>cell_value = Some 10, cell_exist = Some True\<rparr>,
                     \<lparr>cell_value = None, cell_exist = Some False\<rparr>],
          sv_size = 1, sv_capacity = 2, sv_freeIndeces = [1]\<rparr> \<and>
   run_ops [Push_free 10, Push_free 20, Pop_back] sparse_vector_default =
     Inr \<lparr>sv_data = [\<lparr>cell_value = Some (10 :: nat), cell_exist = Some True\<rparr>,
                     \<lparr>cell_value = None, cell_exist = Some False\<rparr>],
          sv_size = 1, sv_capacity = 2, sv_freeIndeces = []\<rparr> \<and>
   erase_at 1
      \<lparr>sv_data = [\<lparr>cell_value = Some (10 :: nat), cell_exist = Some True\<rparr>,
                  \<lparr>cell_value = None, cell_exist = Some False\<rparr>],
       sv_size = 1, sv_capacity = 2, sv_freeIndeces = []\<rparr> =
     Inl (out_of_range ''value doesnt exist in sparse_vector on this index. erase_at.'') \<and>
   erase_at 0 (sparse_vector_default :: nat sparse_vector) = Inl uninitialized_read \<and>
   erase_at 2
      \<lparr>sv_data = [\<lparr>cell_value = Some (10 :: nat), cell_exist = Some True\<rparr>,
                  \<lparr>cell_value = Some 20, cell_exist = Some True\<rparr>],
       sv_size = 1, sv_capacity = 2, sv_freeIndeces = []\<rparr> =
     Inl (out_of_range ''out of sparse_vector range on erase_at.'')"
  by (simp add: sv_eval)

section \<open>What each member function computes\<close>

lemma value_info_updates [simp]:
  "c\<lparr>cell_value := a, cell_exist := b\<rparr> = \<lparr>cell_value = a, cell_exist = b\<rparr>"
  "c\<lparr>cell_exist := b, cell_value := a\<rparr> = \<lparr>cell_value = a, cell_exist = b\<rparr>"
  by (cases c, simp)+

lemma emplace_free_eq: "emplace_free v s = push_free v s"
  by (simp add: emplace_free_def push_free_def)

lemma pop_back_Inr:
  "pop_back s = Inr s' \<longleftrightarrow>
     sv_size s \<noteq> 0 \<and> sv_size s - 1 < length (sv_data s) \<and>
     cell_value (sv_data s ! (sv_size s - 1)) \<noteq> None \<and>
     s' = s\<lparr>sv_size := sv_size s - 1,
            sv_data := (sv_data s)[sv_size s - 1 := \<lparr>cell_value = None, cell_exist = Some False\<rparr>]\<rparr>"
proof (cases "sv_size s \<noteq> 0 \<and> sv_size s - 1 < length (sv_data s)")
  case False
  then show ?thesis by (auto simp: pop_back_def Let_def destroy_value_def)
next
  case True
  then show ?thesis
    by (cases "cell_value (sv_data s ! (sv_size s - 1))")
       (auto simp: pop_back_def Let_def destroy_value_def set_exist_def)
qed

lemma pop_back_total:
  assumes "sv_size s \<noteq> 0" and "sv_size s \<le> length (sv_data s)"
    and "cell_value (sv_data s ! (sv_size s - 1)) \<noteq> None"
  shows "pop_back s =
     Inr (s\<lparr>sv_size := sv_size s - 1,
            sv_data := (sv_data s)[sv_size s - 1 := \<lparr>cell_value = None, cell_exist = Some False\<rparr>]\<rparr>)"
  using assms by (simp add: pop_back_Inr)

lemma erase_at_Inr:
  "erase_at i s = Inr s' \<longleftrightarrow>
     i \<le> sv_size s \<and> i < length (sv_data s) \<and> cell_exist (sv_data s ! i) = Some True \<and>
     cell_value (sv_data s ! i) \<noteq> None \<and>
     s' = s\<lparr>sv_data := (sv_data s)[i := \<lparr>cell_value = None, cell_exist = Some False\<rparr>],
            sv_freeIndeces := sv_freeIndeces s @ [i]\<rparr>"
proof (cases "i \<le> sv_size s \<and> i < length (sv_data s)")
  case False
  then show ?thesis by (auto simp: erase_at_def read_exist_def)
next
  case True
  then show ?thesis
    by (cases "cell_exist (sv_data s ! i)"; cases "cell_value (sv_data s ! i)")
       (auto simp: erase_at_def read_exist_def destroy_value_def mark_as_free_def set_exist_def)
qed

lemma emplace_at_Inr:
  "emplace_at i v s = Inr s' \<longleftrightarrow>
     i < sv_size s \<and> i < length (sv_data s) \<and> cell_exist (sv_data s ! i) = Some True \<and>
     s' = s\<lparr>sv_data := (sv_data s)[i := \<lparr>cell_value = Some v, cell_exist = Some True\<rparr>]\<rparr>"
proof (cases "i < sv_size s \<and> i < length (sv_data s)")
  case False
  then show ?thesis by (auto simp: emplace_at_def read_exist_def)
next
  case True
  then show ?thesis
    by (cases "cell_exist (sv_data s ! i)")
       (auto simp: emplace_at_def read_exist_def construct_value_def set_exist_def)
qed

lemma push_free_reuse:
  assumes "sv_freeIndeces s \<noteq> []" and "last (sv_freeIndeces s) < length (sv_data s)"
  shows "push_free v s =
     Inr (last (sv_freeIndeces s),
          s\<lparr>sv_freeIndeces := butlast (sv_freeIndeces s),
            sv_data := (sv_data s)[last (sv_freeIndeces s) :=
                          \<lparr>cell_value = Some v, cell_exist = Some True\<rparr>]\<rparr>)"
  using assms by (simp add: push_free_def construct_value_def set_exist_def)

lemma push_free_fresh:
  assumes "sv_freeIndeces s = []" and "sv_size s \<noteq> sv_capacity s" and "sv_size s < length (sv_data s)"
  shows "push_free v s =
     Inr (sv_size s,
          s\<lparr>sv_size := Suc (sv_size s),
            sv_data := (sv_data s)[sv_size s := \<lparr>cell_value = Some v, cell_exist = Some True\<rparr>]\<rparr>)"
  using assms by (simp add: push_free_def construct_value_def set_exist_def)

lemma push_free_grow:
  assumes "sv_freeIndeces s = []" and "sv_size s = sv_capacity s"
    and "reallocate (sv_capacity s * 2) s = Inr (s\<lparr>sv_data := d, sv_capacity := sv_capacity s * 2\<rparr>)"
    and "sv_size s < length d"
  shows "push_free v s =
     Inr (sv_size s,
          s\<lparr>sv_size := Suc (sv_size s), sv_capacity := sv_capacity s * 2,
            sv_data := d[sv_size s := \<lparr>cell_value = Some v, cell_exist = Some True\<rparr>]\<rparr>)"
  using assms by (simp add: push_free_def construct_value_def set_exist_def)

lemma push_free_no_room:
  assumes "sv_freeIndeces s = []" and "sv_size s = 0" and "sv_capacity s = 0"
  shows "push_free v s = Inl out_of_bounds_access"
  using assms
  by (simp add: push_free_def reallocate_def for_loop_stop construct_value_def allocate_def)

lemma reserve_keep: "n \<le> sv_capacity s \<Longrightarrow> reserve n s = Inr s"
  by (simp add: reserve_def)

lemma resize_loop:
  assumes "n \<le> length (sv_data s)" and "sv_size s \<le> n"
  shows "\<exists>d. for_loop (sv_size s) n mark_as_free s =
            Inr (s\<lparr>sv_data := d, sv_freeIndeces := sv_freeIndeces s @ [sv_size s..<n]\<rparr>) \<and>
           length d = length (sv_data s) \<and>
           (\<forall>k<length d. d ! k = (if sv_size s \<le> k \<and> k < n
                                   then (sv_data s ! k)\<lparr>cell_exist := Some False\<rparr>
                                   else sv_data s ! k))"
proof -
  define I where "I = (\<lambda>j st. \<exists>d. st = s\<lparr>sv_data := d, sv_freeIndeces := sv_freeIndeces s @ [sv_size s..<j]\<rparr> \<and>
              length d = length (sv_data s) \<and>
              (\<forall>k<length d. d ! k = (if sv_size s \<le> k \<and> k < j
                                      then (sv_data s ! k)\<lparr>cell_exist := Some False\<rparr>
                                      else sv_data s ! k)))"
  have "\<exists>st'. for_loop (sv_size s) n mark_as_free s = Inr st' \<and> I n st'"
  proof (rule for_loop_total [where I = I])
    have "s = s\<lparr>sv_data := sv_data s, sv_freeIndeces := sv_freeIndeces s @ [sv_size s..<sv_size s]\<rparr>"
      by simp
    then show "I (sv_size s) s" unfolding I_def by (intro exI [of _ "sv_data s"]) auto
    show "sv_size s \<le> n" by (rule assms)
    show "\<exists>st'. mark_as_free j st = Inr st' \<and> I (Suc j) st'"
      if "sv_size s \<le> j" "j < n" "I j st" for j st
    proof -
      from that(3) obtain d where st: "st = s\<lparr>sv_data := d, sv_freeIndeces := sv_freeIndeces s @ [sv_size s..<j]\<rparr>"
        and len: "length d = length (sv_data s)"
        and cells: "\<forall>k<length d. d ! k = (if sv_size s \<le> k \<and> k < j
                                      then (sv_data s ! k)\<lparr>cell_exist := Some False\<rparr>
                                      else sv_data s ! k)"
        unfolding I_def by blast
      have j: "j < length d" using that assms len by simp
      define d' where "d' = d[j := (d ! j)\<lparr>cell_exist := Some False\<rparr>]"
      have m: "mark_as_free j st =
          Inr (s\<lparr>sv_data := d', sv_freeIndeces := sv_freeIndeces s @ [sv_size s..<Suc j]\<rparr>)"
        using j that(1) by (simp add: mark_as_free_def set_exist_def st d'_def)
      have len': "length d' = length (sv_data s)" by (simp add: d'_def len)
      have "d' ! k = (if sv_size s \<le> k \<and> k < Suc j
                                      then (sv_data s ! k)\<lparr>cell_exist := Some False\<rparr>
                                      else sv_data s ! k)" if "k < length d'" for k
      proof (cases "k = j")
        case True
        then show ?thesis using cells j \<open>sv_size s \<le> j\<close> by (simp add: d'_def)
      next
        case False
        then have "d' ! k = d ! k" by (simp add: d'_def)
        moreover have "k < length d" using that by (simp add: d'_def)
        ultimately show ?thesis using cells False by (simp add: less_Suc_eq)
      qed
      then have "I (Suc j) (s\<lparr>sv_data := d', sv_freeIndeces := sv_freeIndeces s @ [sv_size s..<Suc j]\<rparr>)"
        unfolding I_def using len' by blast
      with m show ?thesis by blast
    qed
  qed
  then show ?thesis unfolding I_def by blast
qed

lemma for_loop_cells:
  assumes "n \<le> length d0"
    and step: "\<And>j d. j < n \<Longrightarrow> length d = length d0 \<Longrightarrow> d ! j = d0 ! j \<Longrightarrow> body j d = Inr (d[j := F j])"
  shows "\<exists>d. for_loop 0 n body d0 = Inr d \<and> length d = length d0 \<and>
           (\<forall>k<length d0. d ! k = (if k < n then F k else d0 ! k))"
proof -
  define I where "I = (\<lambda>j d. length d = length d0 \<and> (\<forall>k<length d0. d ! k = (if k < j then F k else d0 ! k)))"
  have "\<exists>d. for_loop 0 n body d0 = Inr d \<and> I n d"
  proof (rule for_loop_total [where I = I])
    show "I 0 d0" by (simp add: I_def)
    show "0 \<le> n" by simp
    show "\<exists>st'. body j d = Inr st' \<and> I (Suc j) st'" if "0 \<le> j" "j < n" "I j d" for j d
    proof -
      have len: "length d = length d0" and cells: "\<forall>k<length d0. d ! k = (if k < j then F k else d0 ! k)"
        using that(3) by (simp_all add: I_def)
      have "j < length d0" using that(2) assms(1) by simp
      then have "d ! j = d0 ! j" using cells by simp
      then have "body j d = Inr (d[j := F j])" using that(2) len by (rule step [rotated 2])
      moreover have "I (Suc j) (d[j := F j])"
        unfolding I_def using len cells \<open>j < length d0\<close>
        by (auto simp: nth_list_update less_Suc_eq)
      ultimately show ?thesis by blast
    qed
  qed
  then show ?thesis by (simp add: I_def)
qed

lemma clear_loop:
  assumes "n \<le> length d0"
    and "\<forall>k<n. cell_exist (d0 ! k) \<noteq> None \<and>
            (cell_exist (d0 ! k) = Some True \<longrightarrow> cell_value (d0 ! k) \<noteq> None)"
  shows "\<exists>d. for_loop 0 n clear_body d0 = Inr d \<and> length d = length d0 \<and>
           (\<forall>k<length d0. d ! k = (if k < n then (if cell_exist (d0 ! k) = Some True
                 then \<lparr>cell_value = None, cell_exist = Some False\<rparr> else d0 ! k) else d0 ! k))"
proof (rule for_loop_cells [OF assms(1)])
  fix j d
  assume j: "j < n" and len: "length d = length d0" and dj: "d ! j = d0 ! j"
  from j assms obtain b where b: "cell_exist (d0 ! j) = Some b" by auto
  have jl: "j < length d" using j assms(1) len by simp
  show "clear_body j d = Inr (d[j := (if cell_exist (d0 ! j) = Some True
                 then \<lparr>cell_value = None, cell_exist = Some False\<rparr> else d0 ! j)])"
  proof (cases b)
    case True
    with b j assms(2) obtain v where "cell_value (d0 ! j) = Some v" by auto
    then show ?thesis using True b jl dj
      by (simp add: clear_body_def read_exist_def destroy_value_def set_exist_def)
  next
    case False
    then have "d[j := d0 ! j] = d" using dj by (metis list_update_id)
    then show ?thesis using b jl dj False
      by (simp add: clear_body_def read_exist_def)
  qed
qed

lemma init_loop:
  "for_loop 0 (length other) (init_body other) (allocate (length other)) =
     Inr (map (\<lambda>v. \<lparr>cell_value = Some v, cell_exist = Some True\<rparr>) other)"
proof -
  have "\<exists>d. for_loop 0 (length other) (init_body other) (allocate (length other)) = Inr d \<and>
          length d = length (allocate (length other) :: 'a value_info list) \<and>
          (\<forall>k<length (allocate (length other) :: 'a value_info list).
             d ! k = (if k < length other then \<lparr>cell_value = Some (other ! k), cell_exist = Some True\<rparr>
                      else allocate (length other) ! k))"
  proof (rule for_loop_cells)
    show "length other \<le> length (allocate (length other) :: 'a value_info list)" by simp
    show "init_body other j d = Inr (d[j := \<lparr>cell_value = Some (other ! j), cell_exist = Some True\<rparr>])"
      if "j < length other" "length d = length (allocate (length other) :: 'a value_info list)" for j d
      using that by (simp add: init_body_def construct_value_def set_exist_def)
  qed
  then obtain d where r: "for_loop 0 (length other) (init_body other) (allocate (length other)) = Inr d"
    and len: "length d = length other"
    and cells: "\<forall>k<length other. d ! k = \<lparr>cell_value = Some (other ! k), cell_exist = Some True\<rparr>"
    by auto
  have "d = map (\<lambda>v. \<lparr>cell_value = Some v, cell_exist = Some True\<rparr>) other"
    using len cells by (intro nth_equalityI) simp_all
  with r show ?thesis by simp
qed

lemma copy_loop:
  assumes "n \<le> length old" and "n \<le> m"
    and "\<forall>k<n. cell_exist (old ! k) \<noteq> None \<and>
            (cell_exist (old ! k) = Some True \<longrightarrow> cell_value (old ! k) \<noteq> None)"
  shows "\<exists>d. for_loop 0 n (copy_body old) (allocate m) = Inr d \<and> length d = m \<and>
           (\<forall>k<n. d ! k = relocated (old ! k)) \<and>
           (\<forall>k. n \<le> k \<and> k < m \<longrightarrow> d ! k = \<lparr>cell_value = None, cell_exist = None\<rparr>)"
proof -
  have "\<exists>d. for_loop 0 n (copy_body old) (allocate m) = Inr d \<and>
          length d = length (allocate m :: 'a value_info list) \<and>
          (\<forall>k<length (allocate m :: 'a value_info list).
             d ! k = (if k < n then relocated (old ! k) else allocate m ! k))"
  proof (rule for_loop_cells)
    show "n \<le> length (allocate m :: 'a value_info list)" using assms(2) by simp
    show "copy_body old j d = Inr (d[j := relocated (old ! j)])"
      if j: "j < n" and len: "length d = length (allocate m :: 'a value_info list)"
        and dj: "d ! j = allocate m ! j" for j d
    proof -
      from j assms(3) obtain b where b: "cell_exist (old ! j) = Some b" by auto
      have jl: "j < length d" "j < length old" using j assms len by simp_all
      have raw: "d ! j = \<lparr>cell_value = None, cell_exist = None\<rparr>" using dj j assms(2) by simp
      show ?thesis
      proof (cases b)
        case True
        with b j assms(3) obtain v where v: "cell_value (old ! j) = Some v" by auto
        show ?thesis using True b v jl
          by (simp add: copy_body_def read_exist_def read_value_def construct_value_def
                set_exist_def relocated_def)
      next
        case False
        then show ?thesis using b jl raw
          by (simp add: copy_body_def read_exist_def set_exist_def relocated_def)
      qed
    qed
  qed
  then show ?thesis using assms(2) by auto
qed

lemma free_before_Suc:
  "k < length d \<Longrightarrow>
     free_before d (Suc k) = (if cell_exist (d ! k) = Some False then Suc (free_before d k) else free_before d k)"
  by (simp add: free_before_def take_Suc_conv_app_nth)

lemma free_before_0 [simp]: "free_before d 0 = 0"
  by (simp add: free_before_def)

lemma feel_loop:
  assumes "n \<le> length d0" and "\<forall>k<n. cell_exist (d0 ! k) \<noteq> None"
  shows "\<exists>d. for_loop 0 n (feel_body funct) (d0, 0) = Inr (d, free_before d0 n) \<and>
           length d = length d0 \<and>
           (\<forall>k<length d0. d ! k = (if k < n \<and> cell_exist (d0 ! k) = Some False
                 then \<lparr>cell_value = Some (funct (free_before d0 k)), cell_exist = Some True\<rparr>
                 else d0 ! k))"
proof -
  define I where "I = (\<lambda>j st. \<exists>d. st = (d, free_before d0 j) \<and> length d = length d0 \<and>
           (\<forall>k<length d0. d ! k = (if k < j \<and> cell_exist (d0 ! k) = Some False
                 then \<lparr>cell_value = Some (funct (free_before d0 k)), cell_exist = Some True\<rparr>
                 else d0 ! k)))"
  have "\<exists>st'. for_loop 0 n (feel_body funct) (d0, 0) = Inr st' \<and> I n st'"
  proof (rule for_loop_total [where I = I])
    show "I 0 (d0, 0)" by (simp add: I_def)
    show "0 \<le> n" by simp
    show "\<exists>st'. feel_body funct j st = Inr st' \<and> I (Suc j) st'" if "0 \<le> j" "j < n" "I j st" for j st
    proof -
      from that(3) obtain d where st: "st = (d, free_before d0 j)" and len: "length d = length d0"
        and cells: "\<forall>k<length d0. d ! k = (if k < j \<and> cell_exist (d0 ! k) = Some False
                 then \<lparr>cell_value = Some (funct (free_before d0 k)), cell_exist = Some True\<rparr>
                 else d0 ! k)"
        unfolding I_def by blast
      have jl: "j < length d0" using that(2) assms(1) by simp
      then have dj: "d ! j = d0 ! j" using cells by simp
      from that(2) assms(2) obtain b where b: "cell_exist (d0 ! j) = Some b" by auto
      show ?thesis
      proof (cases b)
        case True
        then have "feel_body funct j st = Inr (d, free_before d0 (Suc j))"
          using b jl dj len by (simp add: feel_body_def st read_exist_def free_before_Suc)
        moreover have "I (Suc j) (d, free_before d0 (Suc j))"
          unfolding I_def using len cells b True by (auto simp: less_Suc_eq)
        ultimately show ?thesis by blast
      next
        case False
        define d' where "d' = d[j := \<lparr>cell_value = Some (funct (free_before d0 j)), cell_exist = Some True\<rparr>]"
        have "feel_body funct j st = Inr (d', free_before d0 (Suc j))"
          using False b jl dj len
          by (simp add: feel_body_def st read_exist_def free_before_Suc construct_value_def
                set_exist_def d'_def)
        moreover have "I (Suc j) (d', free_before d0 (Suc j))"
          unfolding I_def d'_def using len cells b False jl
          by (auto simp: nth_list_update less_Suc_eq)
        ultimately show ?thesis by blast
      qed
    qed
  qed
  then show ?thesis unfolding I_def by blast
qed

lemma relocated_exist: "cell_exist c \<noteq> None \<Longrightarrow> cell_exist (relocated c) = cell_exist c"
  by (cases "cell_exist c") (auto simp: relocated_def)

lemma relocated_value: "cell_exist c = Some True \<Longrightarrow> cell_value (relocated c) = cell_value c"
  by (simp add: relocated_def)

lemma resize_shrink:
  assumes "n \<le> sv_size s" and "sv_size s \<le> sv_capacity s"
  shows "resize n s = Inr (s\<lparr>sv_size := n\<rparr>)"
  using assms by (simp add: resize_def reserve_def for_loop_stop)

lemma reserve_total:
  assumes "well_formed s"
  shows "\<exists>d. reserve n s = Inr (s\<lparr>sv_data := d, sv_capacity := max (sv_capacity s) n\<rparr>) \<and>
           length d = max (sv_capacity s) n \<and>
           (\<forall>k<sv_size s. cell_exist (d ! k) = cell_exist (sv_data s ! k) \<and>
              (cell_exist (sv_data s ! k) = Some True \<longrightarrow> cell_value (d ! k) = cell_value (sv_data s ! k)))"
proof (cases "n \<le> sv_capacity s")
  case True
  then have "reserve n s = Inr (s\<lparr>sv_data := sv_data s, sv_capacity := max (sv_capacity s) n\<rparr>)"
    by (simp add: reserve_def max_def)
  then show ?thesis using assms True by (intro exI [of _ "sv_data s"]) (simp add: well_formed_def max_def)
next
  case False
  then have "sv_size s \<le> n" using assms by (simp add: well_formed_def)
  from reallocate_total [OF assms this] obtain d where
    r: "reallocate n s = Inr (s\<lparr>sv_data := d, sv_capacity := n\<rparr>)" and len: "length d = n"
    and cells: "\<forall>k<sv_size s. d ! k = relocated (sv_data s ! k)"
    by blast
  have "reserve n s = Inr (s\<lparr>sv_data := d, sv_capacity := max (sv_capacity s) n\<rparr>)"
    using False r by (simp add: reserve_def max_def)
  moreover have "\<forall>k<sv_size s. cell_exist (d ! k) = cell_exist (sv_data s ! k) \<and>
              (cell_exist (sv_data s ! k) = Some True \<longrightarrow> cell_value (d ! k) = cell_value (sv_data s ! k))"
    using cells assms by (simp add: well_formed_def relocated_exist relocated_value)
  ultimately show ?thesis using len False by (intro exI [of _ d]) (simp add: max_def)
qed

lemma resize_grow:
  assumes "well_formed s" and "sv_size s \<le> n"
  shows "\<exists>d. resize n s =
             Inr (s\<lparr>sv_data := d, sv_capacity := max (sv_capacity s) n,
                    sv_freeIndeces := sv_freeIndeces s @ [sv_size s..<n], sv_size := n\<rparr>) \<and>
           length d = max (sv_capacity s) n \<and>
           (\<forall>k<sv_size s. cell_exist (d ! k) = cell_exist (sv_data s ! k) \<and>
              (cell_exist (sv_data s ! k) = Some True \<longrightarrow> cell_value (d ! k) = cell_value (sv_data s ! k))) \<and>
           (\<forall>k. sv_size s \<le> k \<and> k < n \<longrightarrow> cell_exist (d ! k) = Some False)"
proof -
  from reserve_total [OF assms(1), of n] obtain d1 where
    r: "reserve n s = Inr (s\<lparr>sv_data := d1, sv_capacity := max (sv_capacity s) n\<rparr>)"
    and len1: "length d1 = max (sv_capacity s) n"
    and cells1: "\<forall>k<sv_size s. cell_exist (d1 ! k) = cell_exist (sv_data s ! k) \<and>
              (cell_exist (sv_data s ! k) = Some True \<longrightarrow> cell_value (d1 ! k) = cell_value (sv_data s ! k))"
    by blast
  define s1 where "s1 = s\<lparr>sv_data := d1, sv_capacity := max (sv_capacity s) n\<rparr>"
  have s1: "sv_data s1 = d1" "sv_size s1 = sv_size s" "sv_freeIndeces s1 = sv_freeIndeces s"
    by (simp_all add: s1_def)
  have "n \<le> length (sv_data s1)" "sv_size s1 \<le> n" using len1 assms(2) by (simp_all add: s1)
  from resize_loop [OF this] obtain d where
    l: "for_loop (sv_size s) n mark_as_free s1 =
          Inr (s1\<lparr>sv_data := d, sv_freeIndeces := sv_freeIndeces s @ [sv_size s..<n]\<rparr>)"
    and len: "length d = length d1"
    and cells: "\<forall>k<length d. d ! k = (if sv_size s \<le> k \<and> k < n
                                   then (d1 ! k)\<lparr>cell_exist := Some False\<rparr> else d1 ! k)"
    unfolding s1 by blast
  have "resize n s =
             Inr (s\<lparr>sv_data := d, sv_capacity := max (sv_capacity s) n,
                    sv_freeIndeces := sv_freeIndeces s @ [sv_size s..<n], sv_size := n\<rparr>)"
    using r l by (simp add: resize_def s1_def)
  moreover have "\<forall>k<sv_size s. cell_exist (d ! k) = cell_exist (sv_data s ! k) \<and>
              (cell_exist (sv_data s ! k) = Some True \<longrightarrow> cell_value (d ! k) = cell_value (sv_data s ! k))"
    using cells cells1 len len1 assms(2) assms(1) by (auto simp: max_def well_formed_def)
  moreover have "\<forall>k. sv_size s \<le> k \<and> k < n \<longrightarrow> cell_exist (d ! k) = Some False"
    using cells len len1 by (auto simp: max_def)
  ultimately show ?thesis using len len1 by (intro exI [of _ d]) simp
qed

lemma feel_free_cells_total:
  assumes "well_formed s"
  shows "\<exists>d. feel_free_cells funct s = Inr (s\<lparr>sv_data := d, sv_freeIndeces := []\<rparr>) \<and>
           length d = length (sv_data s) \<and>
           (\<forall>k<length d. d ! k = (if k < sv_size s \<and> cell_exist (sv_data s ! k) = Some False
                 then \<lparr>cell_value = Some (funct (free_before (sv_data s) k)), cell_exist = Some True\<rparr>
                 else sv_data s ! k))"
proof -
  have "sv_size s \<le> length (sv_data s)" "\<forall>k<sv_size s. cell_exist (sv_data s ! k) \<noteq> None"
    using assms by (simp_all add: well_formed_def)
  from feel_loop [OF this, of funct] obtain d where
    "for_loop 0 (sv_size s) (feel_body funct) (sv_data s, 0) = Inr (d, free_before (sv_data s) (sv_size s))"
    "length d = length (sv_data s)"
    "\<forall>k<length (sv_data s). d ! k = (if k < sv_size s \<and> cell_exist (sv_data s ! k) = Some False
                 then \<lparr>cell_value = Some (funct (free_before (sv_data s) k)), cell_exist = Some True\<rparr>
                 else sv_data s ! k)"
    by blast
  then show ?thesis by (intro exI [of _ d]) (simp add: feel_free_cells_def)
qed

lemma clear_total:
  assumes "well_formed s"
  shows "\<exists>d. clear s = Inr (s\<lparr>sv_data := d, sv_freeIndeces := [], sv_size := 0\<rparr>) \<and>
           length d = length (sv_data s)"
proof -
  have "sv_size s \<le> length (sv_data s)"
    "\<forall>k<sv_size s. cell_exist (sv_data s ! k) \<noteq> None \<and>
        (cell_exist (sv_data s ! k) = Some True \<longrightarrow> cell_value (sv_data s ! k) \<noteq> None)"
    using assms by (simp_all add: well_formed_def)
  from clear_loop [OF this] obtain d where
    "for_loop 0 (sv_size s) clear_body (sv_data s) = Inr d" "length d = length (sv_data s)"
    by blast
  then show ?thesis by (intro exI [of _ d]) (simp add: clear_def)
qed

lemma at_Inr:
  "at i s = Inr v \<longleftrightarrow>
     i < sv_size s \<and> i < length (sv_data s) \<and> cell_exist (sv_data s ! i) = Some True \<and>
     cell_value (sv_data s ! i) = Some v"
proof (cases "i < sv_size s \<and> i < length (sv_data s)")
  case False
  then show ?thesis by (auto simp: at_def read_exist_def)
next
  case True
  then show ?thesis
    by (cases "cell_exist (sv_data s ! i)"; cases "cell_value (sv_data s ! i)")
       (auto simp: at_def read_exist_def read_value_def)
qed

lemma exist_at_well_formed:
  assumes "well_formed s"
  shows "exist_at i s = Inr (i < sv_size s \<and> cell_exist (sv_data s ! i) = Some True)"
proof (cases "i < sv_size s")
  case False
  then show ?thesis by (simp add: exist_at_def)
next
  case True
  with assms obtain b where "cell_exist (sv_data s ! i) = Some b" and "i < length (sv_data s)"
    by (auto simp: well_formed_def)
  with True show ?thesis by (simp add: exist_at_def read_exist_def)
qed

lemma at_well_formed:
  assumes "well_formed s"
  shows "at i s =
     (if sv_size s \<le> i then Inl (out_of_range ''index out of sparse_vector size on at.'')
      else if cell_exist (sv_data s ! i) = Some True then Inr (the (cell_value (sv_data s ! i)))
      else Inl (out_of_range ''value doesnt exist in sparse_vector on this index. at.''))"
proof (cases "i < sv_size s")
  case False
  then show ?thesis by (simp add: at_def)
next
  case True
  with assms obtain b where b: "cell_exist (sv_data s ! i) = Some b" and l: "i < length (sv_data s)"
    and v: "b \<longrightarrow> cell_value (sv_data s ! i) \<noteq> None"
    by (auto simp: well_formed_def)
  show ?thesis using True b l v by (cases b) (auto simp: at_def read_exist_def read_value_def)
qed

lemma push_free_result:
  assumes "well_formed s" and "push_free v s = Inr (i, s')"
  shows "\<exists>d. s' = s\<lparr>sv_data := d[i := \<lparr>cell_value = Some v, cell_exist = Some True\<rparr>],
                    sv_size := (if sv_freeIndeces s = [] then Suc (sv_size s) else sv_size s),
                    sv_capacity := length d,
                    sv_freeIndeces := butlast (sv_freeIndeces s)\<rparr> \<and>
             i = (if sv_freeIndeces s = [] then sv_size s else last (sv_freeIndeces s)) \<and>
             i < length d \<and> sv_capacity s \<le> length d \<and>
             (sv_freeIndeces s \<noteq> [] \<longrightarrow> d = sv_data s) \<and>
             (\<forall>k<sv_size s. cell_exist (d ! k) = cell_exist (sv_data s ! k) \<and>
                (cell_exist (sv_data s ! k) = Some True \<longrightarrow> cell_value (d ! k) = cell_value (sv_data s ! k)))"
proof (cases "sv_freeIndeces s = []")
  case False
  then have "last (sv_freeIndeces s) < length (sv_data s)"
    using assms(1) by (simp add: well_formed_def)
  from push_free_reuse [OF False this, of v] assms(2) assms(1) False \<open>last (sv_freeIndeces s) < length (sv_data s)\<close>
  show ?thesis by (intro exI [of _ "sv_data s"]) (auto simp: well_formed_def)
next
  case True
  show ?thesis
  proof (cases "sv_size s = sv_capacity s")
    case False
    then have lt: "sv_size s < length (sv_data s)" using assms(1) by (simp add: well_formed_def)
    from push_free_fresh [OF True False lt, of v] assms(2) assms(1) True lt
    show ?thesis by (intro exI [of _ "sv_data s"]) (auto simp: well_formed_def)
  next
    case full: True
    have "sv_size s \<le> sv_capacity s * 2" using full by simp
    from reallocate_total [OF assms(1) this] obtain d where
      r: "reallocate (sv_capacity s * 2) s = Inr (s\<lparr>sv_data := d, sv_capacity := sv_capacity s * 2\<rparr>)"
      and len: "length d = sv_capacity s * 2"
      and cells: "\<forall>k<sv_size s. d ! k = relocated (sv_data s ! k)"
      by blast
    have pos: "sv_size s < length d"
    proof (rule ccontr)
      assume "\<not> sv_size s < length d"
      then have "sv_size s = 0" "sv_capacity s = 0" using len full by simp_all
      from push_free_no_room [OF True this, of v] assms(2) show False by simp
    qed
    have same: "\<forall>k<sv_size s. cell_exist (d ! k) = cell_exist (sv_data s ! k) \<and>
                (cell_exist (sv_data s ! k) = Some True \<longrightarrow> cell_value (d ! k) = cell_value (sv_data s ! k))"
      using cells assms(1) by (simp add: well_formed_def relocated_exist relocated_value)
    from push_free_grow [OF True full r pos, of v] assms(2) True pos len same
    show ?thesis by (intro exI [of _ d]) auto
  qed
qed

lemma push_free_returns:
  assumes "well_formed s" and "sv_freeIndeces s = [] \<longrightarrow> sv_size s = sv_capacity s \<longrightarrow> 0 < sv_capacity s"
  shows "\<exists>i s'. push_free v s = Inr (i, s')"
proof (cases "sv_freeIndeces s = []")
  case False
  then have "last (sv_freeIndeces s) < length (sv_data s)"
    using assms(1) by (simp add: well_formed_def)
  from push_free_reuse [OF False this, of v] show ?thesis by blast
next
  case True
  show ?thesis
  proof (cases "sv_size s = sv_capacity s")
    case False
    then have lt: "sv_size s < length (sv_data s)" using assms(1) by (simp add: well_formed_def)
    from push_free_fresh [OF True False lt, of v] show ?thesis by blast
  next
    case full: True
    have "sv_size s \<le> sv_capacity s * 2" using full by simp
    from reallocate_total [OF assms(1) this] obtain d where
      r: "reallocate (sv_capacity s * 2) s = Inr (s\<lparr>sv_data := d, sv_capacity := sv_capacity s * 2\<rparr>)"
      and len: "length d = sv_capacity s * 2"
      by blast
    have pos: "sv_size s < length d" using len full assms(2) True by simp
    from push_free_grow [OF True full r pos, of v] show ?thesis by blast
  qed
qed

section \<open>The representation invariant holds of every reachable container\<close>

lemma well_formed_default: "well_formed sparse_vector_default"
  by (simp add: well_formed_def sparse_vector_default_def)

lemma well_formed_init:
  assumes "sparse_vector_init other = Inr s"
  shows "well_formed s"
  using assms by (auto simp: sparse_vector_init_def init_loop well_formed_def)

lemma well_formed_copy:
  assumes "well_formed s" and "sparse_vector_copy s = Inr s'"
  shows "well_formed s'"
proof -
  have "sv_size s \<le> length (sv_data s)" "sv_size s \<le> sv_capacity s"
    "\<forall>k<sv_size s. cell_exist (sv_data s ! k) \<noteq> None \<and>
            (cell_exist (sv_data s ! k) = Some True \<longrightarrow> cell_value (sv_data s ! k) \<noteq> None)"
    using assms(1) by (simp_all add: well_formed_def)
  from copy_loop [OF this] obtain d where
    l: "for_loop 0 (sv_size s) (copy_body (sv_data s)) (allocate (sv_capacity s)) = Inr d"
    and len: "length d = sv_capacity s"
    and cells: "\<forall>k<sv_size s. d ! k = relocated (sv_data s ! k)"
    by blast
  have s': "s' = \<lparr>sv_data = d, sv_size = sv_size s, sv_capacity = sv_capacity s,
                 sv_freeIndeces = sv_freeIndeces s\<rparr>"
    using assms(2) l by (simp add: sparse_vector_copy_def)
  show ?thesis
    unfolding s' using assms(1) len cells
    by (simp add: well_formed_def relocated_exist relocated_value)
qed

lemma well_formed_push_free:
  assumes "well_formed s" and "push_free v s = Inr (i, s')"
  shows "well_formed s'"
proof -
  from push_free_result [OF assms] obtain d where
    s': "s' = s\<lparr>sv_data := d[i := \<lparr>cell_value = Some v, cell_exist = Some True\<rparr>],
                    sv_size := (if sv_freeIndeces s = [] then Suc (sv_size s) else sv_size s),
                    sv_capacity := length d,
                    sv_freeIndeces := butlast (sv_freeIndeces s)\<rparr>"
    and i: "i = (if sv_freeIndeces s = [] then sv_size s else last (sv_freeIndeces s))"
    and il: "i < length d" and cap: "sv_capacity s \<le> length d"
    and cells: "\<forall>k<sv_size s. cell_exist (d ! k) = cell_exist (sv_data s ! k) \<and>
                (cell_exist (sv_data s ! k) = Some True \<longrightarrow> cell_value (d ! k) = cell_value (sv_data s ! k))"
    by blast
  have sz: "(if sv_freeIndeces s = [] then Suc (sv_size s) else sv_size s) \<le> length d"
    using i il cap assms(1) by (auto simp: well_formed_def)
  have fl: "\<forall>j\<in>set (butlast (sv_freeIndeces s)). j < length d"
    using cap assms(1) by (auto simp: well_formed_def dest!: in_set_butlastD)
  have c: "cell_exist (d[i := \<lparr>cell_value = Some v, cell_exist = Some True\<rparr>] ! k) \<noteq> None \<and>
        (cell_exist (d[i := \<lparr>cell_value = Some v, cell_exist = Some True\<rparr>] ! k) = Some True \<longrightarrow>
         cell_value (d[i := \<lparr>cell_value = Some v, cell_exist = Some True\<rparr>] ! k) \<noteq> None)"
    if "k < (if sv_freeIndeces s = [] then Suc (sv_size s) else sv_size s)" for k
  proof (cases "k = i")
    case True
    then show ?thesis using il by simp
  next
    case False
    then have "k < sv_size s" using that i by (auto split: if_splits)
    then show ?thesis using False cells assms(1) by (simp add: well_formed_def)
  qed
  show ?thesis unfolding s' well_formed_def using sz fl c by simp
qed

lemma well_formed_erase_at:
  assumes "well_formed s" and "erase_at i s = Inr s'"
  shows "well_formed s'"
  using assms by (auto simp: erase_at_Inr well_formed_def nth_list_update)

lemma well_formed_emplace_at:
  assumes "well_formed s" and "emplace_at i v s = Inr s'"
  shows "well_formed s'"
  using assms by (auto simp: emplace_at_Inr well_formed_def nth_list_update)

lemma well_formed_pop_back:
  assumes "well_formed s" and "pop_back s = Inr s'"
  shows "well_formed s'"
proof -
  have nz: "sv_size s \<noteq> 0" using assms(2) by (simp add: pop_back_Inr)
  have "s' = s\<lparr>sv_size := sv_size s - 1,
            sv_data := (sv_data s)[sv_size s - 1 := \<lparr>cell_value = None, cell_exist = Some False\<rparr>]\<rparr>"
    using assms(2) by (simp add: pop_back_Inr)
  then show ?thesis using assms(1) nz by (auto simp: well_formed_def nth_list_update)
qed

lemma well_formed_reserve:
  assumes "well_formed s" and "reserve n s = Inr s'"
  shows "well_formed s'"
proof -
  from reserve_total [OF assms(1), of n] assms(2) obtain d where
    s': "s' = s\<lparr>sv_data := d, sv_capacity := max (sv_capacity s) n\<rparr>"
    and len: "length d = max (sv_capacity s) n"
    and cells: "\<forall>k<sv_size s. cell_exist (d ! k) = cell_exist (sv_data s ! k) \<and>
              (cell_exist (sv_data s ! k) = Some True \<longrightarrow> cell_value (d ! k) = cell_value (sv_data s ! k))"
    by auto
  show ?thesis unfolding s' using assms(1) len cells by (auto simp: well_formed_def)
qed

lemma well_formed_resize:
  assumes "well_formed s" and "resize n s = Inr s'"
  shows "well_formed s'"
proof (cases "sv_size s \<le> n")
  case False
  then have "resize n s = Inr (s\<lparr>sv_size := n\<rparr>)"
    using assms(1) by (intro resize_shrink) (simp_all add: well_formed_def)
  then show ?thesis using assms False by (auto simp: well_formed_def)
next
  case True
  from resize_grow [OF assms(1) True] assms(2) obtain d where
    s': "s' = s\<lparr>sv_data := d, sv_capacity := max (sv_capacity s) n,
                    sv_freeIndeces := sv_freeIndeces s @ [sv_size s..<n], sv_size := n\<rparr>"
    and len: "length d = max (sv_capacity s) n"
    and cells: "\<forall>k<sv_size s. cell_exist (d ! k) = cell_exist (sv_data s ! k) \<and>
              (cell_exist (sv_data s ! k) = Some True \<longrightarrow> cell_value (d ! k) = cell_value (sv_data s ! k))"
    and new: "\<forall>k. sv_size s \<le> k \<and> k < n \<longrightarrow> cell_exist (d ! k) = Some False"
    by auto
  have c: "cell_exist (d ! k) \<noteq> None \<and> (cell_exist (d ! k) = Some True \<longrightarrow> cell_value (d ! k) \<noteq> None)"
    if "k < n" for k
  proof (cases "k < sv_size s")
    case True
    then show ?thesis using cells assms(1) by (simp add: well_formed_def)
  next
    case False
    then show ?thesis using new that by simp
  qed
  show ?thesis unfolding s' well_formed_def using assms(1) len c
    by (auto simp: well_formed_def)
qed

lemma well_formed_feel_free_cells:
  assumes "well_formed s" and "feel_free_cells funct s = Inr s'"
  shows "well_formed s'"
proof -
  from feel_free_cells_total [OF assms(1), of funct] assms(2) obtain d where
    s': "s' = s\<lparr>sv_data := d, sv_freeIndeces := []\<rparr>"
    and len: "length d = length (sv_data s)"
    and cells: "\<forall>k<length d. d ! k = (if k < sv_size s \<and> cell_exist (sv_data s ! k) = Some False
                 then \<lparr>cell_value = Some (funct (free_before (sv_data s) k)), cell_exist = Some True\<rparr>
                 else sv_data s ! k)"
    by auto
  show ?thesis unfolding s' using assms(1) len cells by (auto simp: well_formed_def)
qed

lemma well_formed_clear:
  assumes "well_formed s" and "clear s = Inr s'"
  shows "well_formed s'"
proof -
  from clear_total [OF assms(1)] assms(2) obtain d where
    "s' = s\<lparr>sv_data := d, sv_freeIndeces := [], sv_size := 0\<rparr>" "length d = length (sv_data s)"
    by auto
  then show ?thesis using assms(1) by (simp add: well_formed_def)
qed

lemma well_formed_run_op:
  assumes "well_formed s" and "run_op op s = Inr s'"
  shows "well_formed s'"
proof (cases op)
  case (Push_free v)
  with assms(2) obtain i where "push_free v s = Inr (i, s')"
    by (auto simp: bind_err_Inr_iff)
  with assms(1) show ?thesis by (rule well_formed_push_free)
next
  case (Emplace_free v)
  with assms(2) obtain i where "push_free v s = Inr (i, s')"
    by (auto simp: bind_err_Inr_iff emplace_free_eq)
  with assms(1) show ?thesis by (rule well_formed_push_free)
next
  case (Erase_at i)
  with assms show ?thesis by (auto intro: well_formed_erase_at)
next
  case Pop_back
  with assms show ?thesis by (auto intro: well_formed_pop_back)
next
  case (Feel_free_cells funct)
  with assms show ?thesis by (auto intro: well_formed_feel_free_cells)
next
  case (Reserve n)
  with assms show ?thesis by (auto intro: well_formed_reserve)
next
  case (Resize n)
  with assms show ?thesis by (auto intro: well_formed_resize)
next
  case (Emplace_at i v)
  with assms show ?thesis by (auto intro: well_formed_emplace_at)
next
  case Clear
  with assms show ?thesis by (auto intro: well_formed_clear)
qed

lemma reachable_well_formed: "reachable s \<Longrightarrow> well_formed s"
proof (induction rule: reachable.induct)
  case reachable_default
  show ?case by (rule well_formed_default)
next
  case (reachable_init other s)
  then show ?case by (rule well_formed_init)
next
  case (reachable_copy s s')
  then show ?case by (auto intro: well_formed_copy)
next
  case (reachable_step s op s')
  then show ?case by (auto intro: well_formed_run_op)
qed

lemmas it_eval =
  range_for_def begin_it_def end_it_def iterator_ctor_def iterator_deref_def iterator_incr_def
  iterator_neq_def skip_free.simps iterate.simps

lemmas inv_eval = well_formed_def free_list_inv_def less_Suc_eq nth_Cons'

section \<open>Shrinking with \<open>resize\<close>\<close>

text \<open>
  Claim C10. On a container whose size does not exceed its capacity, \<open>resize(newSize)\<close>
  with \<open>newSize\<close> below the size only assigns \<open>size_\<close>: \<open>reserve\<close> returns at once,
  the loop over \<open>[size, newSize)\<close> does not run. The buffer (so every cell of
  \<open>[newSize, size)\<close>, its value and its flag), the capacity and the free-index store are
  those of before; an entry of the free-index store that is not below \<open>newSize\<close> stays
  in it.
\<close>

theorem resize_smaller_only_sets_size:
  assumes "sv_size s \<le> sv_capacity s" and "newSize < sv_size s"
  shows "resize newSize s = Inr (s\<lparr>sv_size := newSize\<rparr>)"
  using assms by (intro resize_shrink) simp_all

theorem resize_smaller_only_sets_size_witness:
  "run_ops [Push_free 10, Push_free 20, Erase_at 0] sparse_vector_default =
     Inr \<lparr>sv_data = [\<lparr>cell_value = None, cell_exist = Some False\<rparr>,
                     \<lparr>cell_value = Some (20 :: nat), cell_exist = Some True\<rparr>],
          sv_size = 2, sv_capacity = 2, sv_freeIndeces = [0]\<rparr> \<and>
   resize 0
     \<lparr>sv_data = [\<lparr>cell_value = None, cell_exist = Some False\<rparr>,
                 \<lparr>cell_value = Some (20 :: nat), cell_exist = Some True\<rparr>],
      sv_size = 2, sv_capacity = 2, sv_freeIndeces = [0]\<rparr> =
     Inr \<lparr>sv_data = [\<lparr>cell_value = None, cell_exist = Some False\<rparr>,
                     \<lparr>cell_value = Some 20, cell_exist = Some True\<rparr>],
          sv_size = 0, sv_capacity = 2, sv_freeIndeces = [0]\<rparr>"
proof -
  let ?s = "\<lparr>sv_data = [\<lparr>cell_value = None, cell_exist = Some False\<rparr>,
                 \<lparr>cell_value = Some (20 :: nat), cell_exist = Some True\<rparr>],
      sv_size = 2, sv_capacity = 2, sv_freeIndeces = [0]\<rparr>"
  have h1: "sv_size ?s \<le> sv_capacity ?s" by simp
  have h2: "0 < sv_size ?s" by simp
  have "resize 0 ?s = Inr (?s\<lparr>sv_size := 0\<rparr>)"
    by (rule resize_smaller_only_sets_size [OF h1 h2])
  moreover have "run_ops [Push_free 10, Push_free 20, Erase_at 0] sparse_vector_default = Inr ?s"
    by (simp add: sv_eval)
  ultimately show ?thesis by simp
qed

section \<open>Removing the last slot\<close>

lemma pop_back_empty_iff:
  "pop_back s = Inl (out_of_range ''sparse_vector is empty on pop_back.'') \<longleftrightarrow> sv_size s = 0"
  by (auto simp: pop_back_def Let_def destroy_value_def set_exist_def split: option.splits)

text \<open>
  Claim C8, as stated, has \<open>pop_back\<close> on every container of positive size decrement the
  size and clear the flag of the last cell, destroying its value only if it was live,
  and has a following \<open>push_free(x)\<close> on a container of size 1 with a live value at index
  0 place \<open>x\<close> at index 0 through the branch that takes a new slot. After \<open>push_free(10)\<close>,
  \<open>push_free(20)\<close>, \<open>erase_at(1)\<close>, \<open>resize(1)\<close> the size is 1, index 0 is live and the
  free-index store is \<open>[1]\<close>; \<open>pop_back\<close> leaves size 0 and the store \<open>[1]\<close>, and
  \<open>push_free(99)\<close> then takes index 1 from the store: it returns 1, the size stays 0 and
  \<open>at(0)\<close> is out of range. And \<open>pop_back\<close> calls the destructor without a test of the
  flag: after \<open>resize(1)\<close> on a new container the last cell is free and holds no object,
  and the call is undefined.
\<close>

theorem pop_back_then_push_free_takes_stored_index:
  "run_ops [Push_free 10, Push_free 20, Erase_at 1, Resize 1] sparse_vector_default =
     Inr \<lparr>sv_data = [\<lparr>cell_value = Some (10 :: nat), cell_exist = Some True\<rparr>,
                     \<lparr>cell_value = None, cell_exist = Some False\<rparr>],
          sv_size = 1, sv_capacity = 2, sv_freeIndeces = [1]\<rparr> \<and>
   at 0 \<lparr>sv_data = [\<lparr>cell_value = Some (10 :: nat), cell_exist = Some True\<rparr>,
                    \<lparr>cell_value = None, cell_exist = Some False\<rparr>],
         sv_size = 1, sv_capacity = 2, sv_freeIndeces = [1]\<rparr> = Inr 10 \<and>
   pop_back \<lparr>sv_data = [\<lparr>cell_value = Some (10 :: nat), cell_exist = Some True\<rparr>,
                        \<lparr>cell_value = None, cell_exist = Some False\<rparr>],
             sv_size = 1, sv_capacity = 2, sv_freeIndeces = [1]\<rparr> =
     Inr \<lparr>sv_data = [\<lparr>cell_value = None, cell_exist = Some False\<rparr>,
                     \<lparr>cell_value = None, cell_exist = Some False\<rparr>],
          sv_size = 0, sv_capacity = 2, sv_freeIndeces = [1]\<rparr> \<and>
   push_free (99 :: nat)
      \<lparr>sv_data = [\<lparr>cell_value = None, cell_exist = Some False\<rparr>,
                  \<lparr>cell_value = None, cell_exist = Some False\<rparr>],
       sv_size = 0, sv_capacity = 2, sv_freeIndeces = [1]\<rparr> =
     Inr (1, \<lparr>sv_data = [\<lparr>cell_value = None, cell_exist = Some False\<rparr>,
                         \<lparr>cell_value = Some 99, cell_exist = Some True\<rparr>],
              sv_size = 0, sv_capacity = 2, sv_freeIndeces = []\<rparr>) \<and>
   at 0 \<lparr>sv_data = [\<lparr>cell_value = None, cell_exist = Some False\<rparr>,
                    \<lparr>cell_value = Some (99 :: nat), cell_exist = Some True\<rparr>],
         sv_size = 0, sv_capacity = 2, sv_freeIndeces = []\<rparr> =
     Inl (out_of_range ''index out of sparse_vector size on at.'') \<and>
   run_ops [Resize 1] sparse_vector_default =
     Inr \<lparr>sv_data = [\<lparr>cell_value = None :: nat option, cell_exist = Some False\<rparr>,
                     \<lparr>cell_value = None, cell_exist = None\<rparr>],
          sv_size = 1, sv_capacity = 2, sv_freeIndeces = [0]\<rparr> \<and>
   pop_back \<lparr>sv_data = [\<lparr>cell_value = None :: nat option, cell_exist = Some False\<rparr>,
                        \<lparr>cell_value = None, cell_exist = None\<rparr>],
             sv_size = 1, sv_capacity = 2, sv_freeIndeces = [0]\<rparr> =
     Inl destroyed_no_object"
  by (simp add: sv_eval)

text \<open>
  Claim C8, amended. \<open>pop_back\<close> throws the "empty" exception exactly when the size is 0.
  On a well-formed container of positive size whose last cell holds a constructed
  value (as every live cell does) it returns normally: the size is decremented, the
  value in the cell at the old \<open>size - 1\<close> is destroyed and its flag cleared, and the
  free-index store is left as it was, so the index is not pushed onto it. On a
  well-formed container of size 1 with a live value at index 0 and an empty free-index
  store, the size becomes 0 with the store still empty, and a following \<open>push_free(x)\<close>
  returns index 0 through the branch that increments the size, after which \<open>at(0)\<close> is
  \<open>x\<close>. Nothing is stated for \<open>pop_back\<close> when the last cell holds no object.
\<close>

theorem pop_back_behaviour:
  "(pop_back s = Inl (out_of_range ''sparse_vector is empty on pop_back.'') \<longleftrightarrow> sv_size s = 0) \<and>
   (well_formed s \<longrightarrow> sv_size s \<noteq> 0 \<longrightarrow> cell_value (sv_data s ! (sv_size s - 1)) \<noteq> None \<longrightarrow>
      pop_back s =
        Inr (s\<lparr>sv_size := sv_size s - 1,
               sv_data := (sv_data s)[sv_size s - 1 := \<lparr>cell_value = None, cell_exist = Some False\<rparr>]\<rparr>)) \<and>
   (well_formed s \<longrightarrow> sv_size s \<noteq> 0 \<longrightarrow> exist_at (sv_size s - 1) s = Inr True \<longrightarrow>
      pop_back s =
        Inr (s\<lparr>sv_size := sv_size s - 1,
               sv_data := (sv_data s)[sv_size s - 1 := \<lparr>cell_value = None, cell_exist = Some False\<rparr>]\<rparr>)) \<and>
   (well_formed s \<longrightarrow> sv_freeIndeces s = [] \<longrightarrow> sv_size s = 1 \<longrightarrow> at 0 s = Inr v \<longrightarrow>
      (\<exists>s1 s2. pop_back s = Inr s1 \<and> sv_size s1 = 0 \<and> sv_freeIndeces s1 = [] \<and>
         at 0 s1 = Inl (out_of_range ''index out of sparse_vector size on at.'') \<and>
         push_free x s1 = Inr (0, s2) \<and> sv_size s2 = 1 \<and> sv_freeIndeces s2 = [] \<and>
         at 0 s2 = Inr x))"
proof (intro conjI impI)
  show "pop_back s = Inl (out_of_range ''sparse_vector is empty on pop_back.'') \<longleftrightarrow> sv_size s = 0"
    by (rule pop_back_empty_iff)
next
  assume "well_formed s" "sv_size s \<noteq> 0" "cell_value (sv_data s ! (sv_size s - 1)) \<noteq> None"
  then show "pop_back s =
        Inr (s\<lparr>sv_size := sv_size s - 1,
               sv_data := (sv_data s)[sv_size s - 1 := \<lparr>cell_value = None, cell_exist = Some False\<rparr>]\<rparr>)"
    by (intro pop_back_total) (simp_all add: well_formed_def)
next
  assume wf: "well_formed s" and nz: "sv_size s \<noteq> 0"
    and live: "exist_at (sv_size s - 1) s = Inr True"
  from live have "cell_exist (sv_data s ! (sv_size s - 1)) = Some True"
    by (simp add: exist_at_well_formed [OF wf])
  with wf nz have "cell_value (sv_data s ! (sv_size s - 1)) \<noteq> None"
    by (simp add: well_formed_def)
  with wf nz show "pop_back s =
        Inr (s\<lparr>sv_size := sv_size s - 1,
               sv_data := (sv_data s)[sv_size s - 1 := \<lparr>cell_value = None, cell_exist = Some False\<rparr>]\<rparr>)"
    by (intro pop_back_total) (simp_all add: well_formed_def)
next
  assume wf: "well_formed s" and fl: "sv_freeIndeces s = []" and sz: "sv_size s = 1"
    and live: "at 0 s = Inr v"
  have len: "sv_size s \<le> length (sv_data s)" "0 < length (sv_data s)"
    using wf sz by (auto simp: well_formed_def)
  have obj: "cell_value (sv_data s ! (sv_size s - 1)) \<noteq> None"
    using live sz by (simp add: at_Inr)
  define s1 where "s1 = s\<lparr>sv_size := 0,
               sv_data := (sv_data s)[0 := \<lparr>cell_value = None, cell_exist = Some False\<rparr>]\<rparr>"
  have p: "pop_back s = Inr s1"
    using pop_back_total [of s] len sz obj by (simp add: s1_def)
  have s1: "sv_freeIndeces s1 = []" "sv_size s1 = 0" "0 < length (sv_data s1)"
    "sv_size s1 \<noteq> sv_capacity s1" "sv_size s1 < length (sv_data s1)"
    using fl len sz wf by (auto simp: s1_def well_formed_def)
  define s2 where "s2 = s1\<lparr>sv_size := Suc (sv_size s1),
            sv_data := (sv_data s1)[sv_size s1 := \<lparr>cell_value = Some x, cell_exist = Some True\<rparr>]\<rparr>"
  have q: "push_free x s1 = Inr (0, s2)"
    using push_free_fresh [OF s1(1) s1(4) s1(5), of x] s1(2) by (simp add: s2_def)
  have "at 0 s2 = Inr x" using s1 by (simp add: at_Inr s2_def)
  moreover have "at 0 s1 = Inl (out_of_range ''index out of sparse_vector size on at.'')"
    using s1 by (simp add: at_def)
  moreover have "sv_size s2 = 1" "sv_freeIndeces s2 = []" using s1 by (simp_all add: s2_def)
  ultimately show "\<exists>s1 s2. pop_back s = Inr s1 \<and> sv_size s1 = 0 \<and> sv_freeIndeces s1 = [] \<and>
         at 0 s1 = Inl (out_of_range ''index out of sparse_vector size on at.'') \<and>
         push_free x s1 = Inr (0, s2) \<and> sv_size s2 = 1 \<and> sv_freeIndeces s2 = [] \<and>
         at 0 s2 = Inr x"
    using p q s1 by blast
qed

theorem pop_back_behaviour_witness:
  "well_formed \<lparr>sv_data = [\<lparr>cell_value = Some (10 :: nat), cell_exist = Some True\<rparr>,
                           \<lparr>cell_value = None, cell_exist = None\<rparr>],
                sv_size = 1, sv_capacity = 2, sv_freeIndeces = []\<rparr> \<and>
   at 0 \<lparr>sv_data = [\<lparr>cell_value = Some (10 :: nat), cell_exist = Some True\<rparr>,
                           \<lparr>cell_value = None, cell_exist = None\<rparr>],
                sv_size = 1, sv_capacity = 2, sv_freeIndeces = []\<rparr> = Inr 10 \<and>
   exist_at 0 \<lparr>sv_data = [\<lparr>cell_value = Some (10 :: nat), cell_exist = Some True\<rparr>,
                           \<lparr>cell_value = None, cell_exist = None\<rparr>],
                sv_size = 1, sv_capacity = 2, sv_freeIndeces = []\<rparr> = Inr True \<and>
   pop_back \<lparr>sv_data = [\<lparr>cell_value = Some (10 :: nat), cell_exist = Some True\<rparr>,
                           \<lparr>cell_value = None, cell_exist = None\<rparr>],
                sv_size = 1, sv_capacity = 2, sv_freeIndeces = []\<rparr> =
     Inr \<lparr>sv_data = [\<lparr>cell_value = None, cell_exist = Some False\<rparr>,
                     \<lparr>cell_value = None, cell_exist = None\<rparr>],
          sv_size = 0, sv_capacity = 2, sv_freeIndeces = []\<rparr> \<and>
   (\<exists>s1 s2. pop_back \<lparr>sv_data = [\<lparr>cell_value = Some (10 :: nat), cell_exist = Some True\<rparr>,
                           \<lparr>cell_value = None, cell_exist = None\<rparr>],
                sv_size = 1, sv_capacity = 2, sv_freeIndeces = []\<rparr> = Inr s1 \<and>
      sv_size s1 = 0 \<and> sv_freeIndeces s1 = [] \<and>
      at 0 s1 = Inl (out_of_range ''index out of sparse_vector size on at.'') \<and>
      push_free 30 s1 = Inr (0, s2) \<and> sv_size s2 = 1 \<and> sv_freeIndeces s2 = [] \<and>
      at 0 s2 = Inr 30)"
proof -
  let ?s = "\<lparr>sv_data = [\<lparr>cell_value = Some (10 :: nat), cell_exist = Some True\<rparr>,
                           \<lparr>cell_value = None, cell_exist = None\<rparr>],
                sv_size = 1, sv_capacity = 2, sv_freeIndeces = []\<rparr>"
  have wf: "well_formed ?s" by (simp add: inv_eval)
  have fl: "sv_freeIndeces ?s = []" by simp
  have sz: "sv_size ?s = 1" "sv_size ?s \<noteq> 0" by simp_all
  have live: "at 0 ?s = Inr 10" by (simp add: sv_eval)
  have ex: "exist_at 0 ?s = Inr True" by (simp add: sv_eval)
  then have ex': "exist_at (sv_size ?s - 1) ?s = Inr True" by simp
  note th = pop_back_behaviour [of ?s 10 30]
  from th wf sz ex' have "pop_back ?s =
        Inr (?s\<lparr>sv_size := sv_size ?s - 1,
               sv_data := (sv_data ?s)[sv_size ?s - 1 := \<lparr>cell_value = None, cell_exist = Some False\<rparr>]\<rparr>)"
    by blast
  then have p: "pop_back ?s = Inr \<lparr>sv_data = [\<lparr>cell_value = None, cell_exist = Some False\<rparr>,
                     \<lparr>cell_value = None, cell_exist = None\<rparr>],
          sv_size = 0, sv_capacity = 2, sv_freeIndeces = []\<rparr>"
    by simp
  from th wf fl sz live have "\<exists>s1 s2. pop_back ?s = Inr s1 \<and>
      sv_size s1 = 0 \<and> sv_freeIndeces s1 = [] \<and>
      at 0 s1 = Inl (out_of_range ''index out of sparse_vector size on at.'') \<and>
      push_free 30 s1 = Inr (0, s2) \<and> sv_size s2 = 1 \<and> sv_freeIndeces s2 = [] \<and>
      at 0 s2 = Inr 30"
    by blast
  with wf live ex p show ?thesis by blast
qed

section \<open>Reuse of freed slots\<close>

text \<open>
  Claim C5. On a well-formed container with a non-empty free-index store, \<open>push_free(v)\<close>
  and \<open>emplace_free(v)\<close> take the last entry of the store (the one pushed most recently,
  as \<open>mark_as_free\<close> appends at the end), remove it from the store, construct the value
  in that cell with the flag set and return that index; nothing else changes. After a
  successful \<open>erase_at(i)\<close>, the next \<open>push_free(v)\<close> returns \<open>i\<close> and leaves \<open>v\<close> live in
  cell \<open>i\<close>, which \<open>at(i)\<close> returns when \<open>i\<close> is below the size. The scenario: from a new
  container \<open>push_free(10)\<close> returns 0, \<open>push_free(20)\<close> returns 1, \<open>erase_at(0)\<close> succeeds,
  \<open>push_free(30)\<close> returns 0, and the iteration yields 30, 20.
\<close>

theorem free_slot_reuse_is_lifo:
  "(well_formed s \<longrightarrow> sv_freeIndeces s \<noteq> [] \<longrightarrow>
      push_free v s =
        Inr (last (sv_freeIndeces s),
             s\<lparr>sv_freeIndeces := butlast (sv_freeIndeces s),
                sv_data := (sv_data s)[last (sv_freeIndeces s) :=
                             \<lparr>cell_value = Some v, cell_exist = Some True\<rparr>]\<rparr>) \<and>
      emplace_free v s = push_free v s) \<and>
   (erase_at i s = Inr s1 \<longrightarrow>
      (\<exists>s2. push_free v s1 = Inr (i, s2) \<and>
         sv_data s2 ! i = \<lparr>cell_value = Some v, cell_exist = Some True\<rparr> \<and>
         sv_freeIndeces s2 = sv_freeIndeces s \<and>
         (i < sv_size s \<longrightarrow> at i s2 = Inr v))) \<and>
   (\<exists>a b c d.
      push_free (10 :: nat) sparse_vector_default = Inr (0, a) \<and>
      push_free 20 a = Inr (1, b) \<and>
      erase_at 0 b = Inr c \<and>
      push_free 30 c = Inr (0, d) \<and>
      range_for d = Inr [30, 20])"
proof (intro conjI impI)
  assume wf: "well_formed s" and ne: "sv_freeIndeces s \<noteq> []"
  then have "last (sv_freeIndeces s) < length (sv_data s)" by (simp add: well_formed_def)
  with ne show "push_free v s =
        Inr (last (sv_freeIndeces s),
             s\<lparr>sv_freeIndeces := butlast (sv_freeIndeces s),
                sv_data := (sv_data s)[last (sv_freeIndeces s) :=
                             \<lparr>cell_value = Some v, cell_exist = Some True\<rparr>]\<rparr>)"
    by (rule push_free_reuse)
next
  show "emplace_free v s = push_free v s" by (rule emplace_free_eq)
next
  assume e: "erase_at i s = Inr s1"
  then have s1: "s1 = s\<lparr>sv_data := (sv_data s)[i := \<lparr>cell_value = None, cell_exist = Some False\<rparr>],
            sv_freeIndeces := sv_freeIndeces s @ [i]\<rparr>"
    and il: "i < length (sv_data s)"
    by (simp_all add: erase_at_Inr)
  have "sv_freeIndeces s1 \<noteq> []" "last (sv_freeIndeces s1) < length (sv_data s1)"
    using il by (simp_all add: s1)
  from push_free_reuse [OF this, of v]
  have p: "push_free v s1 =
      Inr (i, s\<lparr>sv_freeIndeces := sv_freeIndeces s,
                sv_data := (sv_data s)[i := \<lparr>cell_value = Some v, cell_exist = Some True\<rparr>]\<rparr>)"
    by (simp add: s1)
  show "\<exists>s2. push_free v s1 = Inr (i, s2) \<and>
         sv_data s2 ! i = \<lparr>cell_value = Some v, cell_exist = Some True\<rparr> \<and>
         sv_freeIndeces s2 = sv_freeIndeces s \<and>
         (i < sv_size s \<longrightarrow> at i s2 = Inr v)"
    using p il by (auto simp: at_Inr)
next
  show "\<exists>a b c d.
      push_free (10 :: nat) sparse_vector_default = Inr (0, a) \<and>
      push_free 20 a = Inr (1, b) \<and>
      erase_at 0 b = Inr c \<and>
      push_free 30 c = Inr (0, d) \<and>
      range_for d = Inr [30, 20]"
    by (simp add: sv_eval it_eval)
qed

theorem free_slot_reuse_is_lifo_witness:
  "well_formed \<lparr>sv_data = [\<lparr>cell_value = None, cell_exist = Some False\<rparr>,
                           \<lparr>cell_value = Some (20 :: nat), cell_exist = Some True\<rparr>],
                sv_size = 2, sv_capacity = 2, sv_freeIndeces = [0]\<rparr> \<and>
   erase_at 0 \<lparr>sv_data = [\<lparr>cell_value = Some (10 :: nat), cell_exist = Some True\<rparr>,
                          \<lparr>cell_value = Some 20, cell_exist = Some True\<rparr>],
               sv_size = 2, sv_capacity = 2, sv_freeIndeces = []\<rparr> =
     Inr \<lparr>sv_data = [\<lparr>cell_value = None, cell_exist = Some False\<rparr>,
                     \<lparr>cell_value = Some 20, cell_exist = Some True\<rparr>],
          sv_size = 2, sv_capacity = 2, sv_freeIndeces = [0]\<rparr> \<and>
   push_free 30 \<lparr>sv_data = [\<lparr>cell_value = None, cell_exist = Some False\<rparr>,
                           \<lparr>cell_value = Some (20 :: nat), cell_exist = Some True\<rparr>],
                sv_size = 2, sv_capacity = 2, sv_freeIndeces = [0]\<rparr> =
     Inr (0, \<lparr>sv_data = [\<lparr>cell_value = Some 30, cell_exist = Some True\<rparr>,
                         \<lparr>cell_value = Some 20, cell_exist = Some True\<rparr>],
              sv_size = 2, sv_capacity = 2, sv_freeIndeces = []\<rparr>) \<and>
   (\<exists>s2. push_free 30 \<lparr>sv_data = [\<lparr>cell_value = None, cell_exist = Some False\<rparr>,
                           \<lparr>cell_value = Some (20 :: nat), cell_exist = Some True\<rparr>],
                sv_size = 2, sv_capacity = 2, sv_freeIndeces = [0]\<rparr> = Inr (0, s2) \<and>
      at 0 s2 = Inr 30)"
proof -
  let ?b = "\<lparr>sv_data = [\<lparr>cell_value = Some (10 :: nat), cell_exist = Some True\<rparr>,
                          \<lparr>cell_value = Some 20, cell_exist = Some True\<rparr>],
               sv_size = 2, sv_capacity = 2, sv_freeIndeces = []\<rparr>"
  let ?c = "\<lparr>sv_data = [\<lparr>cell_value = None, cell_exist = Some False\<rparr>,
                           \<lparr>cell_value = Some (20 :: nat), cell_exist = Some True\<rparr>],
                sv_size = 2, sv_capacity = 2, sv_freeIndeces = [0]\<rparr>"
  have wf: "well_formed ?c" by (auto simp: inv_eval)
  have ne: "sv_freeIndeces ?c \<noteq> []" by simp
  have e: "erase_at 0 ?b = Inr ?c" by (simp add: sv_eval)
  have lt: "0 < sv_size ?b" by simp
  note th = free_slot_reuse_is_lifo [of ?c 30]
  note th' = free_slot_reuse_is_lifo [of ?b 30 0 ?c]
  from th wf ne have "push_free 30 ?c =
        Inr (last (sv_freeIndeces ?c),
             ?c\<lparr>sv_freeIndeces := butlast (sv_freeIndeces ?c),
                sv_data := (sv_data ?c)[last (sv_freeIndeces ?c) :=
                             \<lparr>cell_value = Some 30, cell_exist = Some True\<rparr>]\<rparr>)"
    by blast
  then have p: "push_free 30 ?c =
     Inr (0, \<lparr>sv_data = [\<lparr>cell_value = Some 30, cell_exist = Some True\<rparr>,
                         \<lparr>cell_value = Some 20, cell_exist = Some True\<rparr>],
              sv_size = 2, sv_capacity = 2, sv_freeIndeces = []\<rparr>)"
    by simp
  from th' e lt have "\<exists>s2. push_free 30 ?c = Inr (0, s2) \<and> at 0 s2 = Inr 30" by blast
  with wf e p show ?thesis by blast
qed

section \<open>Growth of the buffer\<close>

lemma well_formed_reallocate:
  assumes "well_formed s" and "sv_capacity s \<le> n" and "reallocate n s = Inr s'"
  shows "well_formed s'"
proof -
  have "sv_size s \<le> n" using assms by (simp add: well_formed_def)
  from reallocate_total [OF assms(1) this] assms(3) obtain d where
    s': "s' = s\<lparr>sv_data := d, sv_capacity := n\<rparr>" and len: "length d = n"
    and cells: "\<forall>k<sv_size s. d ! k = relocated (sv_data s ! k)"
    by auto
  show ?thesis unfolding s' using assms(1,2) len cells
    by (auto simp: well_formed_def relocated_exist relocated_value)
qed

lemma same_cells_same_view:
  assumes "well_formed s" and "well_formed s'" and "i < sv_size s" and "i < sv_size s'"
    and "cell_exist (sv_data s' ! i) = cell_exist (sv_data s ! i)"
    and "cell_exist (sv_data s ! i) = Some True \<longrightarrow> cell_value (sv_data s' ! i) = cell_value (sv_data s ! i)"
  shows "at i s' = at i s \<and> exist_at i s' = exist_at i s"
  using assms by (simp add: at_well_formed exist_at_well_formed)

text \<open>
  Claim C6. On a well-formed container whose free-index store is empty and whose size
  equals its capacity, the growth step \<open>reallocate(capacity_ * 2)\<close> of an insertion returns
  a container of capacity exactly twice the old one, with the same size, on which \<open>at\<close>
  and \<open>exist_at\<close> answer at every index what they answered before. When the capacity is
  positive the insertion \<open>push_free(v)\<close> (and \<open>emplace_free(v)\<close>) then returns the old size
  as index, the capacity is doubled, \<open>v\<close> is at the returned index, and below the old
  size \<open>at\<close> and \<open>exist_at\<close> are unchanged. (With capacity 0, which only the constructor
  from an empty initializer list produces, twice the capacity is still 0 and the
  insertion writes outside the buffer.) The scenario: three insertions into a new
  container of capacity 2 return 0, 1, 2; the capacity is 2, 2 and then 4; \<open>at\<close> returns
  the three values at their indices.
\<close>

theorem growth_preserves_content:
  "(well_formed s \<longrightarrow> sv_freeIndeces s = [] \<longrightarrow> sv_size s = sv_capacity s \<longrightarrow>
      (\<exists>s1. reallocate (sv_capacity s * 2) s = Inr s1 \<and>
         sv_capacity s1 = 2 * sv_capacity s \<and> length (sv_data s1) = 2 * sv_capacity s \<and>
         sv_size s1 = sv_size s \<and>
         (\<forall>i. at i s1 = at i s \<and> exist_at i s1 = exist_at i s)) \<and>
      (0 < sv_capacity s \<longrightarrow>
         (\<exists>s'. push_free v s = Inr (sv_size s, s') \<and> emplace_free v s = Inr (sv_size s, s') \<and>
            sv_capacity s' = 2 * sv_capacity s \<and> length (sv_data s') = 2 * sv_capacity s \<and>
            sv_size s' = Suc (sv_size s) \<and> at (sv_size s) s' = Inr v \<and>
            (\<forall>i<sv_size s. at i s' = at i s \<and> exist_at i s' = exist_at i s))) \<and>
      (sv_capacity s = 0 \<longrightarrow> push_free v s = Inl out_of_bounds_access)) \<and>
   (\<exists>a b c.
      push_free (10 :: nat) sparse_vector_default = Inr (0, a) \<and> sv_capacity a = 2 \<and>
      push_free 20 a = Inr (1, b) \<and> sv_capacity b = 2 \<and>
      push_free 30 b = Inr (2, c) \<and> sv_capacity c = 4 \<and>
      at 0 c = Inr 10 \<and> at 1 c = Inr 20 \<and> at 2 c = Inr 30)"
proof (intro conjI impI)
  assume wf: "well_formed s" and fl: "sv_freeIndeces s = []" and full: "sv_size s = sv_capacity s"
  have le: "sv_size s \<le> sv_capacity s * 2" using full by simp
  from reallocate_total [OF wf le] obtain d where
    r: "reallocate (sv_capacity s * 2) s = Inr (s\<lparr>sv_data := d, sv_capacity := sv_capacity s * 2\<rparr>)"
    and len: "length d = sv_capacity s * 2"
    and cells: "\<forall>k<sv_size s. d ! k = relocated (sv_data s ! k)"
    by blast
  define s1 where "s1 = s\<lparr>sv_data := d, sv_capacity := sv_capacity s * 2\<rparr>"
  have wf1: "well_formed s1"
    using well_formed_reallocate [OF wf _ r] by (simp add: s1_def)
  have same: "cell_exist (d ! k) = cell_exist (sv_data s ! k) \<and>
      (cell_exist (sv_data s ! k) = Some True \<longrightarrow> cell_value (d ! k) = cell_value (sv_data s ! k))"
    if "k < sv_size s" for k
    using that cells wf by (simp add: well_formed_def relocated_exist relocated_value)
  have view1: "at i s1 = at i s \<and> exist_at i s1 = exist_at i s" for i
  proof (cases "i < sv_size s")
    case True
    then show ?thesis using same [OF True] wf wf1
      by (intro same_cells_same_view) (simp_all add: s1_def)
  next
    case False
    then show ?thesis by (simp add: at_def exist_at_def s1_def)
  qed
  show "\<exists>s1. reallocate (sv_capacity s * 2) s = Inr s1 \<and>
         sv_capacity s1 = 2 * sv_capacity s \<and> length (sv_data s1) = 2 * sv_capacity s \<and>
         sv_size s1 = sv_size s \<and>
         (\<forall>i. at i s1 = at i s \<and> exist_at i s1 = exist_at i s)"
    using r len view1 by (intro exI [of _ s1]) (simp add: s1_def)
  show "push_free v s = Inl out_of_bounds_access" if "sv_capacity s = 0"
    using that fl full by (intro push_free_no_room) simp_all
  show "\<exists>s'. push_free v s = Inr (sv_size s, s') \<and> emplace_free v s = Inr (sv_size s, s') \<and>
            sv_capacity s' = 2 * sv_capacity s \<and> length (sv_data s') = 2 * sv_capacity s \<and>
            sv_size s' = Suc (sv_size s) \<and> at (sv_size s) s' = Inr v \<and>
            (\<forall>i<sv_size s. at i s' = at i s \<and> exist_at i s' = exist_at i s)"
    if pos: "0 < sv_capacity s"
  proof -
    have room: "sv_size s < length d" using len full pos by simp
    define s' where "s' = s\<lparr>sv_size := Suc (sv_size s), sv_capacity := sv_capacity s * 2,
            sv_data := d[sv_size s := \<lparr>cell_value = Some v, cell_exist = Some True\<rparr>]\<rparr>"
    have p: "push_free v s = Inr (sv_size s, s')"
      using push_free_grow [OF fl full r room, of v] by (simp add: s'_def)
    have wf': "well_formed s'" using well_formed_push_free [OF wf p] .
    have "at i s' = at i s \<and> exist_at i s' = exist_at i s" if "i < sv_size s" for i
      using that same [OF that] wf wf'
      by (intro same_cells_same_view) (simp_all add: s'_def)
    moreover have "at (sv_size s) s' = Inr v" using room by (simp add: at_Inr s'_def)
    ultimately show ?thesis using p len
      by (intro exI [of _ s']) (simp add: emplace_free_eq s'_def)
  qed
next
  show "\<exists>a b c.
      push_free (10 :: nat) sparse_vector_default = Inr (0, a) \<and> sv_capacity a = 2 \<and>
      push_free 20 a = Inr (1, b) \<and> sv_capacity b = 2 \<and>
      push_free 30 b = Inr (2, c) \<and> sv_capacity c = 4 \<and>
      at 0 c = Inr 10 \<and> at 1 c = Inr 20 \<and> at 2 c = Inr 30"
    by (simp add: sv_eval)
qed

theorem growth_preserves_content_witness:
  "well_formed \<lparr>sv_data = [\<lparr>cell_value = Some (10 :: nat), cell_exist = Some True\<rparr>,
                           \<lparr>cell_value = Some 20, cell_exist = Some True\<rparr>],
                sv_size = 2, sv_capacity = 2, sv_freeIndeces = []\<rparr> \<and>
   (\<exists>s'. push_free 30 \<lparr>sv_data = [\<lparr>cell_value = Some (10 :: nat), cell_exist = Some True\<rparr>,
                                  \<lparr>cell_value = Some 20, cell_exist = Some True\<rparr>],
                       sv_size = 2, sv_capacity = 2, sv_freeIndeces = []\<rparr> = Inr (2, s') \<and>
      sv_capacity s' = 4 \<and> sv_size s' = 3 \<and>
      at 0 s' = Inr 10 \<and> at 1 s' = Inr 20 \<and> at 2 s' = Inr 30 \<and>
      exist_at 0 s' = Inr True \<and> exist_at 1 s' = Inr True)"
proof -
  let ?b = "\<lparr>sv_data = [\<lparr>cell_value = Some (10 :: nat), cell_exist = Some True\<rparr>,
                           \<lparr>cell_value = Some 20, cell_exist = Some True\<rparr>],
                sv_size = 2, sv_capacity = 2, sv_freeIndeces = []\<rparr>"
  have wf: "well_formed ?b" by (auto simp: inv_eval)
  have h: "sv_freeIndeces ?b = []" "sv_size ?b = sv_capacity ?b" "0 < sv_capacity ?b" by simp_all
  from growth_preserves_content [of ?b 30] wf h
  obtain s' where p: "push_free 30 ?b = Inr (sv_size ?b, s')"
    and c: "sv_capacity s' = 2 * sv_capacity ?b" "sv_size s' = Suc (sv_size ?b)"
      "at (sv_size ?b) s' = Inr 30"
    and v: "\<forall>i<sv_size ?b. at i s' = at i ?b \<and> exist_at i s' = exist_at i ?b"
    by blast
  have "at 0 s' = at 0 ?b" "at 1 s' = at 1 ?b" "exist_at 0 s' = exist_at 0 ?b"
    "exist_at 1 s' = exist_at 1 ?b"
    using v by simp_all
  then have "at 0 s' = Inr 10" "at 1 s' = Inr 20" "exist_at 0 s' = Inr True" "exist_at 1 s' = Inr True"
    by (simp_all add: sv_eval)
  with p c wf show ?thesis by (intro conjI exI [of _ s']) simp_all
qed

section \<open>Growing with \<open>resize\<close> and filling the free cells\<close>

text \<open>
  Claim C9. On a well-formed container \<open>resize(newSize)\<close> with \<open>newSize\<close> not below the
  size returns normally with size \<open>newSize\<close>; every index of \<open>[oldSize, newSize)\<close> has its
  flag clear (so \<open>exist_at\<close> is false and \<open>at\<close> throws the "value doesnt exist" exception)
  and is appended, in ascending order, to the free-index store; below the old size \<open>at\<close>
  and \<open>exist_at\<close> are unchanged. \<open>feel_free_cells(funct)\<close> returns normally with the same
  size and an empty free-index store; every index below the size is live afterwards,
  a cell that was live keeps its value and a cell that was free holds the result of
  the call of \<open>funct\<close> made for it (the calls are numbered in index order). The scenario:
  \<open>resize(5)\<close> on a new container gives five free indices, \<open>at(2)\<close> fails, and after
  \<open>feel_free_cells\<close> with a function returning 7 the iteration yields 7 five times.
\<close>

theorem resize_then_feel_free_cells:
  "(well_formed s \<longrightarrow> sv_size s \<le> newSize \<longrightarrow>
      (\<exists>s'. resize newSize s = Inr s' \<and> sv_size s' = newSize \<and>
         sv_freeIndeces s' = sv_freeIndeces s @ [sv_size s..<newSize] \<and>
         (\<forall>i. sv_size s \<le> i \<and> i < newSize \<longrightarrow>
            cell_exist (sv_data s' ! i) = Some False \<and> exist_at i s' = Inr False \<and>
            at i s' = Inl (out_of_range ''value doesnt exist in sparse_vector on this index. at.'')) \<and>
         (\<forall>i<sv_size s. at i s' = at i s \<and> exist_at i s' = exist_at i s))) \<and>
   (well_formed s \<longrightarrow>
      (\<exists>s'. feel_free_cells funct s = Inr s' \<and> sv_size s' = sv_size s \<and>
         sv_capacity s' = sv_capacity s \<and> sv_freeIndeces s' = [] \<and>
         (\<forall>i<sv_size s. exist_at i s' = Inr True \<and>
            at i s' = (if cell_exist (sv_data s ! i) = Some True then at i s
                       else Inr (funct (free_before (sv_data s) i)))))) \<and>
   (\<exists>a b.
      resize 5 (sparse_vector_default :: nat sparse_vector) = Inr a \<and> sv_size a = 5 \<and>
      sv_freeIndeces a = [0, 1, 2, 3, 4] \<and>
      exist_at 0 a = Inr False \<and> exist_at 1 a = Inr False \<and> exist_at 2 a = Inr False \<and>
      exist_at 3 a = Inr False \<and> exist_at 4 a = Inr False \<and>
      at 2 a = Inl (out_of_range ''value doesnt exist in sparse_vector on this index. at.'') \<and>
      feel_free_cells (\<lambda>call. 7) a = Inr b \<and> sv_freeIndeces b = [] \<and>
      at 0 b = Inr 7 \<and> at 1 b = Inr 7 \<and> at 2 b = Inr 7 \<and> at 3 b = Inr 7 \<and> at 4 b = Inr 7 \<and>
      range_for b = Inr [7, 7, 7, 7, 7])"
proof (intro conjI impI)
  assume wf: "well_formed s" and le: "sv_size s \<le> newSize"
  from resize_grow [OF wf le] obtain d where
    r: "resize newSize s =
             Inr (s\<lparr>sv_data := d, sv_capacity := max (sv_capacity s) newSize,
                    sv_freeIndeces := sv_freeIndeces s @ [sv_size s..<newSize], sv_size := newSize\<rparr>)"
    and cells: "\<forall>k<sv_size s. cell_exist (d ! k) = cell_exist (sv_data s ! k) \<and>
              (cell_exist (sv_data s ! k) = Some True \<longrightarrow> cell_value (d ! k) = cell_value (sv_data s ! k))"
    and new: "\<forall>k. sv_size s \<le> k \<and> k < newSize \<longrightarrow> cell_exist (d ! k) = Some False"
    by blast
  define s' where "s' = s\<lparr>sv_data := d, sv_capacity := max (sv_capacity s) newSize,
                    sv_freeIndeces := sv_freeIndeces s @ [sv_size s..<newSize], sv_size := newSize\<rparr>"
  have r': "resize newSize s = Inr s'" using r by (simp add: s'_def)
  have wf': "well_formed s'" using well_formed_resize [OF wf r'] .
  have s': "sv_data s' = d" "sv_size s' = newSize"
    "sv_freeIndeces s' = sv_freeIndeces s @ [sv_size s..<newSize]"
    by (simp_all add: s'_def)
  have fresh: "cell_exist (sv_data s' ! i) = Some False \<and> exist_at i s' = Inr False \<and>
            at i s' = Inl (out_of_range ''value doesnt exist in sparse_vector on this index. at.'')"
    if "sv_size s \<le> i \<and> i < newSize" for i
    using that new by (simp add: at_well_formed [OF wf'] exist_at_well_formed [OF wf'] s')
  have old: "at i s' = at i s \<and> exist_at i s' = exist_at i s" if "i < sv_size s" for i
    using that cells le wf wf' by (intro same_cells_same_view) (simp_all add: s')
  show "\<exists>s'. resize newSize s = Inr s' \<and> sv_size s' = newSize \<and>
         sv_freeIndeces s' = sv_freeIndeces s @ [sv_size s..<newSize] \<and>
         (\<forall>i. sv_size s \<le> i \<and> i < newSize \<longrightarrow>
            cell_exist (sv_data s' ! i) = Some False \<and> exist_at i s' = Inr False \<and>
            at i s' = Inl (out_of_range ''value doesnt exist in sparse_vector on this index. at.'')) \<and>
         (\<forall>i<sv_size s. at i s' = at i s \<and> exist_at i s' = exist_at i s)"
    using r' s' fresh old by (intro exI [of _ s']) blast
next
  assume wf: "well_formed s"
  from feel_free_cells_total [OF wf, of funct] obtain d where
    f: "feel_free_cells funct s = Inr (s\<lparr>sv_data := d, sv_freeIndeces := []\<rparr>)"
    and len: "length d = length (sv_data s)"
    and cells: "\<forall>k<length d. d ! k = (if k < sv_size s \<and> cell_exist (sv_data s ! k) = Some False
                 then \<lparr>cell_value = Some (funct (free_before (sv_data s) k)), cell_exist = Some True\<rparr>
                 else sv_data s ! k)"
    by blast
  define s' where "s' = s\<lparr>sv_data := d, sv_freeIndeces := []\<rparr>"
  have f': "feel_free_cells funct s = Inr s'" using f by (simp add: s'_def)
  have wf': "well_formed s'" using well_formed_feel_free_cells [OF wf f'] .
  have s': "sv_data s' = d" "sv_size s' = sv_size s" "sv_freeIndeces s' = []"
    "sv_capacity s' = sv_capacity s"
    by (simp_all add: s'_def)
  have filled: "exist_at i s' = Inr True \<and>
            at i s' = (if cell_exist (sv_data s ! i) = Some True then at i s
                       else Inr (funct (free_before (sv_data s) i)))"
    if i: "i < sv_size s" for i
  proof -
    from wf i obtain b where b: "cell_exist (sv_data s ! i) = Some b" and il: "i < length d"
      using len by (auto simp: well_formed_def)
    show ?thesis
    proof (cases b)
      case True
      then have "d ! i = sv_data s ! i" using cells il b by simp
      then show ?thesis using True b i
        by (simp add: at_well_formed [OF wf'] exist_at_well_formed [OF wf'] at_well_formed [OF wf] s')
    next
      case False
      then have "d ! i = \<lparr>cell_value = Some (funct (free_before (sv_data s) i)), cell_exist = Some True\<rparr>"
        using cells il b i by simp
      then show ?thesis using False b i
        by (simp add: at_well_formed [OF wf'] exist_at_well_formed [OF wf'] s')
    qed
  qed
  show "\<exists>s'. feel_free_cells funct s = Inr s' \<and> sv_size s' = sv_size s \<and>
         sv_capacity s' = sv_capacity s \<and> sv_freeIndeces s' = [] \<and>
         (\<forall>i<sv_size s. exist_at i s' = Inr True \<and>
            at i s' = (if cell_exist (sv_data s ! i) = Some True then at i s
                       else Inr (funct (free_before (sv_data s) i))))"
    using f' s' filled by (intro exI [of _ s']) blast
next
  show "\<exists>a b.
      resize 5 (sparse_vector_default :: nat sparse_vector) = Inr a \<and> sv_size a = 5 \<and>
      sv_freeIndeces a = [0, 1, 2, 3, 4] \<and>
      exist_at 0 a = Inr False \<and> exist_at 1 a = Inr False \<and> exist_at 2 a = Inr False \<and>
      exist_at 3 a = Inr False \<and> exist_at 4 a = Inr False \<and>
      at 2 a = Inl (out_of_range ''value doesnt exist in sparse_vector on this index. at.'') \<and>
      feel_free_cells (\<lambda>call. 7) a = Inr b \<and> sv_freeIndeces b = [] \<and>
      at 0 b = Inr 7 \<and> at 1 b = Inr 7 \<and> at 2 b = Inr 7 \<and> at 3 b = Inr 7 \<and> at 4 b = Inr 7 \<and>
      range_for b = Inr [7, 7, 7, 7, 7]"
    by (simp add: sv_eval it_eval)
qed

theorem resize_then_feel_free_cells_witness:
  "well_formed (sparse_vector_default :: nat sparse_vector) \<and>
   (\<exists>s'. resize 5 (sparse_vector_default :: nat sparse_vector) = Inr s' \<and> sv_size s' = 5 \<and>
      sv_freeIndeces s' = [0, 1, 2, 3, 4] \<and> exist_at 2 s' = Inr False \<and>
      at 2 s' = Inl (out_of_range ''value doesnt exist in sparse_vector on this index. at.'')) \<and>
   well_formed \<lparr>sv_data = [\<lparr>cell_value = Some (10 :: nat), cell_exist = Some True\<rparr>,
                           \<lparr>cell_value = None, cell_exist = Some False\<rparr>,
                           \<lparr>cell_value = None, cell_exist = Some False\<rparr>,
                           \<lparr>cell_value = None, cell_exist = None\<rparr>],
                sv_size = 3, sv_capacity = 4, sv_freeIndeces = [1, 2]\<rparr> \<and>
   (\<exists>s'. feel_free_cells (\<lambda>call. 7 + call)
             \<lparr>sv_data = [\<lparr>cell_value = Some (10 :: nat), cell_exist = Some True\<rparr>,
                           \<lparr>cell_value = None, cell_exist = Some False\<rparr>,
                           \<lparr>cell_value = None, cell_exist = Some False\<rparr>,
                           \<lparr>cell_value = None, cell_exist = None\<rparr>],
                sv_size = 3, sv_capacity = 4, sv_freeIndeces = [1, 2]\<rparr> = Inr s' \<and>
      sv_size s' = 3 \<and> sv_freeIndeces s' = [] \<and>
      exist_at 0 s' = Inr True \<and> exist_at 1 s' = Inr True \<and> exist_at 2 s' = Inr True \<and>
      at 0 s' = Inr 10 \<and> at 1 s' = Inr 7 \<and> at 2 s' = Inr 8)"
proof -
  let ?e = "sparse_vector_default :: nat sparse_vector"
  let ?t = "\<lparr>sv_data = [\<lparr>cell_value = Some (10 :: nat), cell_exist = Some True\<rparr>,
                           \<lparr>cell_value = None, cell_exist = Some False\<rparr>,
                           \<lparr>cell_value = None, cell_exist = Some False\<rparr>,
                           \<lparr>cell_value = None, cell_exist = None\<rparr>],
                sv_size = 3, sv_capacity = 4, sv_freeIndeces = [1, 2]\<rparr>"
  let ?f = "\<lambda>call :: nat. 7 + call"
  have wfe: "well_formed ?e" by (rule well_formed_default)
  have le: "sv_size ?e \<le> 5" by (simp add: sparse_vector_default_def)
  have sz: "sv_size ?e = 0" by (simp add: sparse_vector_default_def)
  have fe: "sv_freeIndeces ?e = []" by (simp add: sparse_vector_default_def)
  from resize_then_feel_free_cells [of ?e 5] wfe le
  obtain a where a: "resize 5 ?e = Inr a" "sv_size a = 5"
    "sv_freeIndeces a = sv_freeIndeces ?e @ [sv_size ?e..<5]"
    and fresh: "\<forall>i. sv_size ?e \<le> i \<and> i < 5 \<longrightarrow>
            cell_exist (sv_data a ! i) = Some False \<and> exist_at i a = Inr False \<and>
            at i a = Inl (out_of_range ''value doesnt exist in sparse_vector on this index. at.'')"
    by blast
  have a2: "exist_at 2 a = Inr False"
    "at 2 a = Inl (out_of_range ''value doesnt exist in sparse_vector on this index. at.'')"
    using fresh sz by simp_all
  have "[0..<5] = [0, 1, 2, 3, 4 :: nat]" by code_simp
  then have afl: "sv_freeIndeces a = [0, 1, 2, 3, 4]" using a(3) by (simp add: sz fe)
  have first: "\<exists>s'. resize 5 ?e = Inr s' \<and> sv_size s' = 5 \<and>
      sv_freeIndeces s' = [0, 1, 2, 3, 4] \<and> exist_at 2 s' = Inr False \<and>
      at 2 s' = Inl (out_of_range ''value doesnt exist in sparse_vector on this index. at.'')"
    using a(1,2) afl a2 by blast
  have wft: "well_formed ?t" by (auto simp: inv_eval)
  from resize_then_feel_free_cells [of ?t _ ?f] wft
  obtain b where b: "feel_free_cells ?f ?t = Inr b" "sv_size b = sv_size ?t" "sv_freeIndeces b = []"
    and filled: "\<forall>i<sv_size ?t. exist_at i b = Inr True \<and>
            at i b = (if cell_exist (sv_data ?t ! i) = Some True then at i ?t
                       else Inr (?f (free_before (sv_data ?t) i)))"
    by blast
  have "exist_at 0 b = Inr True \<and> at 0 b = at 0 ?t"
    "exist_at 1 b = Inr True \<and> at 1 b = Inr (?f (free_before (sv_data ?t) 1))"
    "exist_at 2 b = Inr True \<and> at 2 b = Inr (?f (free_before (sv_data ?t) 2))"
    using filled by simp_all
  then have "exist_at 0 b = Inr True" "exist_at 1 b = Inr True" "exist_at 2 b = Inr True"
    "at 0 b = Inr 10" "at 1 b = Inr 7" "at 2 b = Inr 8"
    by (simp_all add: sv_eval free_before_def)
  with b have second: "\<exists>s'. feel_free_cells ?f ?t = Inr s' \<and>
      sv_size s' = 3 \<and> sv_freeIndeces s' = [] \<and>
      exist_at 0 s' = Inr True \<and> exist_at 1 s' = Inr True \<and> exist_at 2 s' = Inr True \<and>
      at 0 s' = Inr 10 \<and> at 1 s' = Inr 7 \<and> at 2 s' = Inr 8"
    by (intro exI [of _ b]) simp
  from wfe first wft second show ?thesis by blast
qed

section \<open>Iteration\<close>

lemma live_values_live_from: "live_values s = live_from (sv_data s) 0 (sv_size s)"
  by (simp add: live_values_def live_from_def)

lemma live_from_empty [simp]: "live_from d e e = []"
  by (simp add: live_from_def)

lemma live_from_skip:
  assumes "p \<le> p'" and "p' \<le> e" and "\<forall>k. p \<le> k \<and> k < p' \<longrightarrow> cell_exist (d ! k) = Some False"
  shows "live_from d p e = live_from d p' e"
proof -
  have "[p..<e] = [p..<p'] @ [p'..<e]" using assms(1,2) by (metis le_Suc_ex upt_add_eq_append)
  moreover have "filter (\<lambda>i. cell_exist (d ! i) = Some True) [p..<p'] = []"
    using assms(3) by (auto simp: filter_empty_conv)
  ultimately show ?thesis by (simp add: live_from_def)
qed

lemma live_from_step:
  assumes "p < e" and "cell_exist (d ! p) = Some True"
  shows "live_from d p e = the (cell_value (d ! p)) # live_from d (Suc p) e"
  using assms by (simp add: live_from_def upt_conv_Cons)

lemma skip_free_spec:
  assumes "p \<le> e" and "e \<le> length d" and "\<forall>k<e. cell_exist (d ! k) \<noteq> None"
  shows "\<exists>p'. skip_free d p e = Inr p' \<and> p \<le> p' \<and> p' \<le> e \<and>
           (\<forall>k. p \<le> k \<and> k < p' \<longrightarrow> cell_exist (d ! k) = Some False) \<and>
           (p' < e \<longrightarrow> cell_exist (d ! p') = Some True)"
  using assms
proof (induction "e - p" arbitrary: p)
  case 0
  then have "p = e" by simp
  then show ?case by (auto simp: skip_free.simps [of d e e])
next
  case (Suc n)
  then have lt: "p < e" by simp
  with Suc.prems obtain b where b: "cell_exist (d ! p) = Some b" and pl: "p < length d" by auto
  show ?case
  proof (cases b)
    case True
    then have "skip_free d p e = Inr p"
      using lt b pl by (simp add: skip_free.simps [of d p e] read_exist_def)
    then show ?thesis using lt b True by auto
  next
    case False
    have "\<exists>p'. skip_free d (Suc p) e = Inr p' \<and> Suc p \<le> p' \<and> p' \<le> e \<and>
           (\<forall>k. Suc p \<le> k \<and> k < p' \<longrightarrow> cell_exist (d ! k) = Some False) \<and>
           (p' < e \<longrightarrow> cell_exist (d ! p') = Some True)"
      using Suc.hyps(2) lt Suc.prems(2,3) by (intro Suc.hyps(1)) simp_all
    then obtain p' where r: "skip_free d (Suc p) e = Inr p'" and ge: "Suc p \<le> p'" and le: "p' \<le> e"
      and fr: "\<forall>k. Suc p \<le> k \<and> k < p' \<longrightarrow> cell_exist (d ! k) = Some False"
      and lv: "p' < e \<longrightarrow> cell_exist (d ! p') = Some True"
      by blast
    have "skip_free d p e = Inr p'"
      using lt b False pl r by (simp add: skip_free.simps [of d p e] read_exist_def)
    moreover have "\<forall>k. p \<le> k \<and> k < p' \<longrightarrow> cell_exist (d ! k) = Some False"
    proof (intro allI impI)
      fix k assume k: "p \<le> k \<and> k < p'"
      show "cell_exist (d ! k) = Some False"
      proof (cases "k = p")
        case True
        then show ?thesis using b False by simp
      next
        case neq: False
        then show ?thesis using k fr by simp
      qed
    qed
    ultimately show ?thesis using ge le lv by auto
  qed
qed

lemma iterate_spec:
  assumes "e \<le> length d"
    and "\<forall>k<e. cell_exist (d ! k) \<noteq> None \<and> (cell_exist (d ! k) = Some True \<longrightarrow> cell_value (d ! k) \<noteq> None)"
    and "p \<le> e" and "p < e \<longrightarrow> cell_exist (d ! p) = Some True"
  shows "iterate d \<lparr>ptr = p, endPtr = e\<rparr> \<lparr>ptr = e, endPtr = e\<rparr> = Inr (live_from d p e)"
  using assms(3,4)
proof (induction "e - p" arbitrary: p rule: less_induct)
  case less
  show ?case
  proof (cases "p = e")
    case True
    then show ?thesis by (simp add: iterate.simps [of d "\<lparr>ptr = e, endPtr = e\<rparr>"] iterator_neq_def)
  next
    case False
    then have lt: "p < e" using less.prems by simp
    then have live: "cell_exist (d ! p) = Some True" using less.prems by simp
    with lt assms(1,2) obtain v where v: "cell_value (d ! p) = Some v" and pl: "p < length d" by auto
    have nones: "\<forall>k<e. cell_exist (d ! k) \<noteq> None" using assms(2) by simp
    from skip_free_spec [OF _ assms(1) nones, of "Suc p"] lt
    obtain p' where r: "skip_free d (Suc p) e = Inr p'" and ge: "Suc p \<le> p'" and le: "p' \<le> e"
      and fr: "\<forall>k. Suc p \<le> k \<and> k < p' \<longrightarrow> cell_exist (d ! k) = Some False"
      and lv: "p' < e \<longrightarrow> cell_exist (d ! p') = Some True"
      by auto
    have IH: "iterate d \<lparr>ptr = p', endPtr = e\<rparr> \<lparr>ptr = e, endPtr = e\<rparr> = Inr (live_from d p' e)"
      using ge le lv lt by (intro less.hyps) simp_all
    have "iterate d \<lparr>ptr = p, endPtr = e\<rparr> \<lparr>ptr = e, endPtr = e\<rparr> = Inr (v # live_from d p' e)"
      using False v pl r IH
      by (simp add: iterate.simps [of d "\<lparr>ptr = p, endPtr = e\<rparr>"] iterator_neq_def
            iterator_deref_def iterator_incr_def read_value_def)
    moreover have "live_from d p e = v # live_from d (Suc p) e"
      using live_from_step [OF lt live] v by simp
    moreover have "live_from d (Suc p) e = live_from d p' e"
      using ge le fr by (rule live_from_skip)
    ultimately show ?thesis by simp
  qed
qed

lemma reachable_run_ops:
  "reachable s \<Longrightarrow> run_ops ops s = Inr s' \<Longrightarrow> reachable s'"
proof (induction ops arbitrary: s)
  case Nil
  then show ?case by simp
next
  case (Cons op ops)
  from Cons.prems(2) obtain s1 where a: "run_op op s = Inr s1" and b: "run_ops ops s1 = Inr s'"
    by (auto simp: bind_err_Inr_iff)
  from Cons.prems(1) a have "reachable s1" by (rule reachable_step)
  then show ?case using b by (rule Cons.IH)
qed

lemma range_for_well_formed:
  assumes "well_formed s"
  shows "range_for s = Inr (live_values s)"
proof -
  have le: "sv_size s \<le> length (sv_data s)"
    and cells: "\<forall>k<sv_size s. cell_exist (sv_data s ! k) \<noteq> None \<and>
        (cell_exist (sv_data s ! k) = Some True \<longrightarrow> cell_value (sv_data s ! k) \<noteq> None)"
    using assms by (simp_all add: well_formed_def)
  then have nones: "\<forall>k<sv_size s. cell_exist (sv_data s ! k) \<noteq> None" by simp
  from skip_free_spec [OF _ le nones, of 0]
  obtain p0 where b: "skip_free (sv_data s) 0 (sv_size s) = Inr p0" and p0: "p0 \<le> sv_size s"
    and fr: "\<forall>k. 0 \<le> k \<and> k < p0 \<longrightarrow> cell_exist (sv_data s ! k) = Some False"
    and lv: "p0 < sv_size s \<longrightarrow> cell_exist (sv_data s ! p0) = Some True"
    by auto
  have e: "skip_free (sv_data s) (sv_size s) (sv_size s) = Inr (sv_size s)"
    by (simp add: skip_free.simps [of _ "sv_size s" "sv_size s"])
  have "iterate (sv_data s) \<lparr>ptr = p0, endPtr = sv_size s\<rparr> \<lparr>ptr = sv_size s, endPtr = sv_size s\<rparr> =
      Inr (live_from (sv_data s) p0 (sv_size s))"
    using le cells p0 lv by (rule iterate_spec)
  moreover have "live_from (sv_data s) 0 (sv_size s) = live_from (sv_data s) p0 (sv_size s)"
    using _ p0 fr by (rule live_from_skip) simp
  ultimately show ?thesis
    using b e by (simp add: range_for_def begin_it_def end_it_def iterator_ctor_def live_values_live_from)
qed

text \<open>
  Claim C7. For every container a program can reach (from a constructor, by any
  sequence of public operations that return normally, insertions and erasures among
  them) the loop from \<open>begin()\<close> to \<open>end()\<close> returns normally and yields exactly the
  values of the live cells of \<open>[0, size)\<close> in ascending index order. The constructor of
  the iterator returned by \<open>begin()\<close> stops at the first live index, or at the size when
  there is none, every index before it being free; \<open>++\<close> on an iterator that stands
  below the size moves it forward to the next live index, or to the size, every index
  in between being free.
\<close>

theorem iteration_yields_live_values:
  "reachable s \<longrightarrow>
     range_for s = Inr (live_values s) \<and>
     (\<exists>b. begin_it s = Inr b \<and> endPtr b = sv_size s \<and> ptr b \<le> sv_size s \<and>
        (\<forall>k<ptr b. exist_at k s = Inr False) \<and>
        (ptr b < sv_size s \<longrightarrow> exist_at (ptr b) s = Inr True)) \<and>
     end_it s = Inr \<lparr>ptr = sv_size s, endPtr = sv_size s\<rparr> \<and>
     (\<forall>it. ptr it < sv_size s \<and> endPtr it = sv_size s \<longrightarrow>
        (\<exists>it'. iterator_incr (sv_data s) it = Inr it' \<and> endPtr it' = sv_size s \<and>
           ptr it < ptr it' \<and> ptr it' \<le> sv_size s \<and>
           (\<forall>k. ptr it < k \<and> k < ptr it' \<longrightarrow> exist_at k s = Inr False) \<and>
           (ptr it' < sv_size s \<longrightarrow> exist_at (ptr it') s = Inr True)))"
proof (intro impI conjI allI)
  assume "reachable s"
  then have wf: "well_formed s" by (rule reachable_well_formed)
  have le: "sv_size s \<le> length (sv_data s)"
    and nones: "\<forall>k<sv_size s. cell_exist (sv_data s ! k) \<noteq> None"
    using wf by (simp_all add: well_formed_def)
  show "range_for s = Inr (live_values s)" using wf by (rule range_for_well_formed)
  show "end_it s = Inr \<lparr>ptr = sv_size s, endPtr = sv_size s\<rparr>"
    by (simp add: end_it_def iterator_ctor_def skip_free.simps [of _ "sv_size s" "sv_size s"])
  from skip_free_spec [OF _ le nones, of 0]
  obtain p0 where b: "skip_free (sv_data s) 0 (sv_size s) = Inr p0" and p0: "p0 \<le> sv_size s"
    and fr: "\<forall>k. 0 \<le> k \<and> k < p0 \<longrightarrow> cell_exist (sv_data s ! k) = Some False"
    and lv: "p0 < sv_size s \<longrightarrow> cell_exist (sv_data s ! p0) = Some True"
    by auto
  have "begin_it s = Inr \<lparr>ptr = p0, endPtr = sv_size s\<rparr>"
    using b by (simp add: begin_it_def iterator_ctor_def)
  moreover have "\<forall>k<p0. exist_at k s = Inr False"
    using fr p0 by (simp add: exist_at_well_formed [OF wf])
  moreover have "p0 < sv_size s \<longrightarrow> exist_at p0 s = Inr True"
    using lv by (simp add: exist_at_well_formed [OF wf])
  ultimately show "\<exists>b. begin_it s = Inr b \<and> endPtr b = sv_size s \<and> ptr b \<le> sv_size s \<and>
        (\<forall>k<ptr b. exist_at k s = Inr False) \<and>
        (ptr b < sv_size s \<longrightarrow> exist_at (ptr b) s = Inr True)"
    using p0 by (intro exI [of _ "\<lparr>ptr = p0, endPtr = sv_size s\<rparr>"]) simp
  fix it :: iterator
  assume it: "ptr it < sv_size s \<and> endPtr it = sv_size s"
  then have "Suc (ptr it) \<le> sv_size s" by simp
  from skip_free_spec [OF this le nones]
  obtain p' where r: "skip_free (sv_data s) (Suc (ptr it)) (sv_size s) = Inr p'"
    and ge: "Suc (ptr it) \<le> p'" and p': "p' \<le> sv_size s"
    and fr': "\<forall>k. Suc (ptr it) \<le> k \<and> k < p' \<longrightarrow> cell_exist (sv_data s ! k) = Some False"
    and lv': "p' < sv_size s \<longrightarrow> cell_exist (sv_data s ! p') = Some True"
    by auto
  have "iterator_incr (sv_data s) it = Inr (it\<lparr>ptr := p'\<rparr>)"
    using r it by (simp add: iterator_incr_def)
  moreover have "\<forall>k. ptr it < k \<and> k < p' \<longrightarrow> exist_at k s = Inr False"
    using fr' p' by (simp add: exist_at_well_formed [OF wf])
  moreover have "p' < sv_size s \<longrightarrow> exist_at p' s = Inr True"
    using lv' by (simp add: exist_at_well_formed [OF wf])
  ultimately show "\<exists>it'. iterator_incr (sv_data s) it = Inr it' \<and> endPtr it' = sv_size s \<and>
           ptr it < ptr it' \<and> ptr it' \<le> sv_size s \<and>
           (\<forall>k. ptr it < k \<and> k < ptr it' \<longrightarrow> exist_at k s = Inr False) \<and>
           (ptr it' < sv_size s \<longrightarrow> exist_at (ptr it') s = Inr True)"
    using ge p' it by (intro exI [of _ "it\<lparr>ptr := p'\<rparr>"]) simp
qed

theorem iteration_yields_live_values_witness:
  "run_ops [Push_free 10, Push_free 20, Push_free 30, Erase_at 1, Erase_at 0, Emplace_free 40]
      sparse_vector_default =
     Inr \<lparr>sv_data = [\<lparr>cell_value = Some (40 :: nat), cell_exist = Some True\<rparr>,
                     \<lparr>cell_value = None, cell_exist = Some False\<rparr>,
                     \<lparr>cell_value = Some 30, cell_exist = Some True\<rparr>,
                     \<lparr>cell_value = None, cell_exist = None\<rparr>],
          sv_size = 3, sv_capacity = 4, sv_freeIndeces = [1]\<rparr> \<and>
   reachable \<lparr>sv_data = [\<lparr>cell_value = Some (40 :: nat), cell_exist = Some True\<rparr>,
                     \<lparr>cell_value = None, cell_exist = Some False\<rparr>,
                     \<lparr>cell_value = Some 30, cell_exist = Some True\<rparr>,
                     \<lparr>cell_value = None, cell_exist = None\<rparr>],
          sv_size = 3, sv_capacity = 4, sv_freeIndeces = [1]\<rparr> \<and>
   range_for \<lparr>sv_data = [\<lparr>cell_value = Some (40 :: nat), cell_exist = Some True\<rparr>,
                     \<lparr>cell_value = None, cell_exist = Some False\<rparr>,
                     \<lparr>cell_value = Some 30, cell_exist = Some True\<rparr>,
                     \<lparr>cell_value = None, cell_exist = None\<rparr>],
          sv_size = 3, sv_capacity = 4, sv_freeIndeces = [1]\<rparr> = Inr [40, 30] \<and>
   iterator_incr [\<lparr>cell_value = Some (40 :: nat), cell_exist = Some True\<rparr>,
                  \<lparr>cell_value = None, cell_exist = Some False\<rparr>,
                  \<lparr>cell_value = Some 30, cell_exist = Some True\<rparr>,
                  \<lparr>cell_value = None, cell_exist = None\<rparr>] \<lparr>ptr = 0, endPtr = 3\<rparr> =
     Inr \<lparr>ptr = 2, endPtr = 3\<rparr>"
proof -
  let ?s = "\<lparr>sv_data = [\<lparr>cell_value = Some (40 :: nat), cell_exist = Some True\<rparr>,
                     \<lparr>cell_value = None, cell_exist = Some False\<rparr>,
                     \<lparr>cell_value = Some 30, cell_exist = Some True\<rparr>,
                     \<lparr>cell_value = None, cell_exist = None\<rparr>],
          sv_size = 3, sv_capacity = 4, sv_freeIndeces = [1]\<rparr>"
  have run: "run_ops [Push_free 10, Push_free 20, Push_free 30, Erase_at 1, Erase_at 0, Emplace_free 40]
      sparse_vector_default = Inr ?s"
    by (simp add: sv_eval)
  have reach: "reachable ?s"
    using reachable_default run by (rule reachable_run_ops)
  from iteration_yields_live_values [of ?s] reach
  have "range_for ?s = Inr (live_values ?s)" by blast
  moreover have "live_values ?s = [40, 30]" by code_simp
  moreover have "iterator_incr (sv_data ?s) \<lparr>ptr = 0, endPtr = 3\<rparr> = Inr \<lparr>ptr = 2, endPtr = 3\<rparr>"
    by (simp add: it_eval read_exist_def)
  ultimately show ?thesis using run reach by simp
qed

section \<open>The invariant of the free-index store\<close>

lemma butlast_not_last:
  assumes "distinct xs" and "j \<in> set (butlast xs)"
  shows "j \<noteq> last xs"
proof -
  from assms(2) have ne: "xs \<noteq> []" by auto
  then have "xs = butlast xs @ [last xs]" by simp
  then have "distinct (butlast xs @ [last xs])" using assms(1) by simp
  then show ?thesis using assms(2) by auto
qed

lemma free_list_inv_push_free:
  assumes "well_formed s" and "free_list_inv s" and "push_free v s = Inr (i, s')"
  shows "free_list_inv s'"
proof (cases "sv_freeIndeces s = []")
  case True
  from push_free_result [OF assms(1,3)] True have "sv_freeIndeces s' = []" by auto
  then show ?thesis by (simp add: free_list_inv_def)
next
  case False
  from push_free_result [OF assms(1,3)] False
  have s': "s' = s\<lparr>sv_data := (sv_data s)[i := \<lparr>cell_value = Some v, cell_exist = Some True\<rparr>],
                    sv_size := sv_size s, sv_capacity := length (sv_data s),
                    sv_freeIndeces := butlast (sv_freeIndeces s)\<rparr>"
    and i: "i = last (sv_freeIndeces s)"
    by auto
  have d: "distinct (sv_freeIndeces s)" using assms(2) by (simp add: free_list_inv_def)
  have "j < sv_size s \<and>
      cell_exist ((sv_data s)[i := \<lparr>cell_value = Some v, cell_exist = Some True\<rparr>] ! j) = Some False"
    if "j \<in> set (butlast (sv_freeIndeces s))" for j
  proof -
    have "j \<noteq> i" using butlast_not_last [OF d that] i by simp
    moreover have "j \<in> set (sv_freeIndeces s)" using that by (rule in_set_butlastD)
    ultimately show ?thesis using assms(2) by (simp add: free_list_inv_def nth_list_update_neq)
  qed
  then show ?thesis unfolding s' free_list_inv_def using d
    by (simp add: distinct_butlast)
qed

lemma free_list_inv_erase_at:
  assumes "free_list_inv s" and "erase_at i s = Inr s'" and "i < sv_size s"
  shows "free_list_inv s'"
proof -
  from assms(2) have s': "s' = s\<lparr>sv_data := (sv_data s)[i := \<lparr>cell_value = None, cell_exist = Some False\<rparr>],
            sv_freeIndeces := sv_freeIndeces s @ [i]\<rparr>"
    and il: "i < length (sv_data s)" and live: "cell_exist (sv_data s ! i) = Some True"
    by (simp_all add: erase_at_Inr)
  have ni: "i \<notin> set (sv_freeIndeces s)" using assms(1) live by (auto simp: free_list_inv_def)
  have "j < sv_size s \<and>
      cell_exist ((sv_data s)[i := \<lparr>cell_value = None, cell_exist = Some False\<rparr>] ! j) = Some False"
    if "j \<in> set (sv_freeIndeces s)" for j
  proof -
    have "j \<noteq> i" using that ni by auto
    then show ?thesis using that assms(1) by (simp add: free_list_inv_def nth_list_update_neq)
  qed
  then show ?thesis unfolding s' free_list_inv_def using assms(1,3) il ni
    by (simp add: free_list_inv_def)
qed

lemma free_list_inv_emplace_at:
  assumes "free_list_inv s" and "emplace_at i v s = Inr s'"
  shows "free_list_inv s'"
proof -
  from assms(2) have s': "s' = s\<lparr>sv_data := (sv_data s)[i := \<lparr>cell_value = Some v, cell_exist = Some True\<rparr>]\<rparr>"
    and live: "cell_exist (sv_data s ! i) = Some True"
    by (simp_all add: emplace_at_Inr)
  have ni: "i \<notin> set (sv_freeIndeces s)" using assms(1) live by (auto simp: free_list_inv_def)
  have "j < sv_size s \<and>
      cell_exist ((sv_data s)[i := \<lparr>cell_value = Some v, cell_exist = Some True\<rparr>] ! j) = Some False"
    if "j \<in> set (sv_freeIndeces s)" for j
  proof -
    have "j \<noteq> i" using that ni by auto
    then show ?thesis using that assms(1) by (simp add: free_list_inv_def nth_list_update_neq)
  qed
  then show ?thesis unfolding s' free_list_inv_def using assms(1)
    by (simp add: free_list_inv_def)
qed

lemma free_list_inv_pop_back:
  assumes "well_formed s" and "free_list_inv s" and "pop_back s = Inr s'"
    and "sv_size s - 1 \<notin> set (sv_freeIndeces s)"
  shows "free_list_inv s'"
proof -
  have s': "s' = s\<lparr>sv_size := sv_size s - 1,
            sv_data := (sv_data s)[sv_size s - 1 := \<lparr>cell_value = None, cell_exist = Some False\<rparr>]\<rparr>"
    using assms(3) by (simp add: pop_back_Inr)
  have "j < sv_size s - 1 \<and>
      cell_exist ((sv_data s)[sv_size s - 1 := \<lparr>cell_value = None, cell_exist = Some False\<rparr>] ! j) = Some False"
    if "j \<in> set (sv_freeIndeces s)" for j
  proof -
    have "j < sv_size s" using that assms(2) by (simp add: free_list_inv_def)
    moreover have ne: "j \<noteq> sv_size s - 1" using that assms(4) by auto
    ultimately have "j < sv_size s - 1" by simp
    then show ?thesis using that assms(2) ne by (simp add: free_list_inv_def nth_list_update_neq)
  qed
  then show ?thesis unfolding s' free_list_inv_def using assms(2)
    by (simp add: free_list_inv_def)
qed

lemma free_list_inv_reserve:
  assumes "well_formed s" and "free_list_inv s" and "reserve n s = Inr s'"
  shows "free_list_inv s'"
proof -
  from reserve_total [OF assms(1), of n] assms(3) obtain d where
    s': "s' = s\<lparr>sv_data := d, sv_capacity := max (sv_capacity s) n\<rparr>"
    and cells: "\<forall>k<sv_size s. cell_exist (d ! k) = cell_exist (sv_data s ! k) \<and>
              (cell_exist (sv_data s ! k) = Some True \<longrightarrow> cell_value (d ! k) = cell_value (sv_data s ! k))"
    by auto
  show ?thesis unfolding s' using assms(2) cells by (auto simp: free_list_inv_def)
qed

lemma free_list_inv_resize:
  assumes "well_formed s" and "free_list_inv s" and "resize n s = Inr s'"
    and "\<forall>j\<in>set (sv_freeIndeces s). j < n"
  shows "free_list_inv s'"
proof (cases "sv_size s \<le> n")
  case False
  then have "resize n s = Inr (s\<lparr>sv_size := n\<rparr>)"
    using assms(1) by (intro resize_shrink) (simp_all add: well_formed_def)
  then have "s' = s\<lparr>sv_size := n\<rparr>" using assms(3) by simp
  then show ?thesis using assms(2,4) by (auto simp: free_list_inv_def)
next
  case True
  from resize_grow [OF assms(1) True] assms(3) obtain d where
    s': "s' = s\<lparr>sv_data := d, sv_capacity := max (sv_capacity s) n,
                    sv_freeIndeces := sv_freeIndeces s @ [sv_size s..<n], sv_size := n\<rparr>"
    and cells: "\<forall>k<sv_size s. cell_exist (d ! k) = cell_exist (sv_data s ! k) \<and>
              (cell_exist (sv_data s ! k) = Some True \<longrightarrow> cell_value (d ! k) = cell_value (sv_data s ! k))"
    and new: "\<forall>k. sv_size s \<le> k \<and> k < n \<longrightarrow> cell_exist (d ! k) = Some False"
    by auto
  have old: "j < sv_size s \<and> cell_exist (sv_data s ! j) = Some False"
    if "j \<in> set (sv_freeIndeces s)" for j
    using that assms(2) by (simp add: free_list_inv_def)
  have a: "j < n \<and> cell_exist (d ! j) = Some False"
    if "j \<in> set (sv_freeIndeces s @ [sv_size s..<n])" for j
  proof (cases "j \<in> set (sv_freeIndeces s)")
    case True
    then show ?thesis using old [OF True] cells \<open>sv_size s \<le> n\<close> by simp
  next
    case False
    then have "sv_size s \<le> j \<and> j < n" using that by simp
    then show ?thesis using new by simp
  qed
  have "set (sv_freeIndeces s) \<inter> set [sv_size s..<n] = {}" using old by fastforce
  then have b: "distinct (sv_freeIndeces s @ [sv_size s..<n])"
    using assms(2) by (simp add: free_list_inv_def)
  have "\<forall>j\<in>set (sv_freeIndeces s @ [sv_size s..<n]). j < n"
    "\<forall>j\<in>set (sv_freeIndeces s @ [sv_size s..<n]). cell_exist (d ! j) = Some False"
    using a by blast+
  then show ?thesis unfolding s' free_list_inv_def using b by simp
qed

lemma free_list_inv_copy:
  assumes "well_formed s" and "free_list_inv s" and "sparse_vector_copy s = Inr s'"
  shows "free_list_inv s'"
proof -
  have "sv_size s \<le> length (sv_data s)" "sv_size s \<le> sv_capacity s"
    "\<forall>k<sv_size s. cell_exist (sv_data s ! k) \<noteq> None \<and>
            (cell_exist (sv_data s ! k) = Some True \<longrightarrow> cell_value (sv_data s ! k) \<noteq> None)"
    using assms(1) by (simp_all add: well_formed_def)
  from copy_loop [OF this] obtain d where
    l: "for_loop 0 (sv_size s) (copy_body (sv_data s)) (allocate (sv_capacity s)) = Inr d"
    and cells: "\<forall>k<sv_size s. d ! k = relocated (sv_data s ! k)"
    by blast
  have s': "s' = \<lparr>sv_data = d, sv_size = sv_size s, sv_capacity = sv_capacity s,
                 sv_freeIndeces = sv_freeIndeces s\<rparr>"
    using assms(3) l by (simp add: sparse_vector_copy_def)
  show ?thesis unfolding s' using assms(2) cells
    by (auto simp: free_list_inv_def relocated_def)
qed

text \<open>
  Claim C3, as stated, says that every public operation preserves the invariant of the
  free-index store. \<open>resize\<close> to a smaller size only assigns \<open>size_\<close> and \<open>pop_back\<close> only
  decrements it: an index recorded as free stays recorded when the size drops to it or
  below. After \<open>push_free(10)\<close>, \<open>erase_at(0)\<close> the store is \<open>[0]\<close> with size 1 and the
  invariant holds; after \<open>resize(0)\<close> the store is still \<open>[0]\<close> with size 0. Likewise
  after \<open>push_free(10)\<close>, \<open>resize(0)\<close>, \<open>resize(1)\<close> the store is \<open>[0]\<close> with size 1, cell
  0 having its flag clear over the value that was never destroyed, and the invariant
  holds; after \<open>pop_back()\<close> the store is still \<open>[0]\<close> with size 0.
\<close>

theorem free_list_invariant_lost_on_shrink:
  "run_ops [Push_free 10, Erase_at 0] sparse_vector_default =
     Inr \<lparr>sv_data = [\<lparr>cell_value = None :: nat option, cell_exist = Some False\<rparr>,
                     \<lparr>cell_value = None, cell_exist = None\<rparr>],
          sv_size = 1, sv_capacity = 2, sv_freeIndeces = [0]\<rparr> \<and>
   free_list_inv \<lparr>sv_data = [\<lparr>cell_value = None :: nat option, cell_exist = Some False\<rparr>,
                             \<lparr>cell_value = None, cell_exist = None\<rparr>],
                  sv_size = 1, sv_capacity = 2, sv_freeIndeces = [0]\<rparr> \<and>
   run_op (Resize 0) \<lparr>sv_data = [\<lparr>cell_value = None :: nat option, cell_exist = Some False\<rparr>,
                             \<lparr>cell_value = None, cell_exist = None\<rparr>],
                  sv_size = 1, sv_capacity = 2, sv_freeIndeces = [0]\<rparr> =
     Inr \<lparr>sv_data = [\<lparr>cell_value = None, cell_exist = Some False\<rparr>,
                     \<lparr>cell_value = None, cell_exist = None\<rparr>],
          sv_size = 0, sv_capacity = 2, sv_freeIndeces = [0]\<rparr> \<and>
   run_ops [Push_free 10, Resize 0, Resize 1] sparse_vector_default =
     Inr \<lparr>sv_data = [\<lparr>cell_value = Some (10 :: nat), cell_exist = Some False\<rparr>,
                     \<lparr>cell_value = None, cell_exist = None\<rparr>],
          sv_size = 1, sv_capacity = 2, sv_freeIndeces = [0]\<rparr> \<and>
   free_list_inv \<lparr>sv_data = [\<lparr>cell_value = Some (10 :: nat), cell_exist = Some False\<rparr>,
                             \<lparr>cell_value = None, cell_exist = None\<rparr>],
                  sv_size = 1, sv_capacity = 2, sv_freeIndeces = [0]\<rparr> \<and>
   run_op Pop_back \<lparr>sv_data = [\<lparr>cell_value = Some (10 :: nat), cell_exist = Some False\<rparr>,
                             \<lparr>cell_value = None, cell_exist = None\<rparr>],
                  sv_size = 1, sv_capacity = 2, sv_freeIndeces = [0]\<rparr> =
     Inr \<lparr>sv_data = [\<lparr>cell_value = None, cell_exist = Some False\<rparr>,
                     \<lparr>cell_value = None, cell_exist = None\<rparr>],
          sv_size = 0, sv_capacity = 2, sv_freeIndeces = [0]\<rparr> \<and>
   \<not> free_list_inv \<lparr>sv_data = [\<lparr>cell_value = None :: nat option, cell_exist = Some False\<rparr>,
                             \<lparr>cell_value = None, cell_exist = None\<rparr>],
                  sv_size = 0, sv_capacity = 2, sv_freeIndeces = [0]\<rparr>"
  by (simp add: sv_eval free_list_inv_def)

text \<open>
  Claim C3, amended. On a well-formed container whose free-index store satisfies the
  invariant (only indices below the size, each at most once, each of a cell whose flag
  is clear), the invariant holds again after \<open>push_free\<close>, \<open>emplace_free\<close>, \<open>emplace_at\<close>,
  \<open>feel_free_cells\<close>, \<open>reserve\<close>, \<open>clear\<close>, after \<open>erase_at(i)\<close> with \<open>i\<close> below the size,
  after \<open>pop_back\<close> when the last index is not in the store, and after \<open>resize(n)\<close> when
  every index in the store is below \<open>n\<close> (as it is whenever \<open>n\<close> is not below the size).
  The containers made by the constructors satisfy it, the copy of a container that
  satisfies it does too. Nothing is stated for \<open>pop_back\<close> when the last index is in the
  store, for \<open>erase_at(size)\<close>, and for a \<open>resize\<close> below an index in the store.
\<close>

theorem free_list_invariant_preserved:
  "(well_formed s \<longrightarrow> free_list_inv s \<longrightarrow> run_op op s = Inr s' \<longrightarrow>
      (op = Pop_back \<longrightarrow> sv_size s - 1 \<notin> set (sv_freeIndeces s)) \<longrightarrow>
      (\<forall>n. op = Resize n \<longrightarrow> (\<forall>j\<in>set (sv_freeIndeces s). j < n)) \<longrightarrow>
      op \<noteq> Erase_at (sv_size s) \<longrightarrow>
      free_list_inv s') \<and>
   (well_formed s \<longrightarrow> free_list_inv s \<longrightarrow> sv_size s \<le> n \<longrightarrow> resize n s = Inr s' \<longrightarrow>
      free_list_inv s') \<and>
   free_list_inv (sparse_vector_default :: 'a sparse_vector) \<and>
   (sparse_vector_init other = Inr (t :: 'a sparse_vector) \<longrightarrow> free_list_inv t) \<and>
   (well_formed s \<longrightarrow> free_list_inv s \<longrightarrow> sparse_vector_copy s = Inr s' \<longrightarrow> free_list_inv s')"
proof (intro conjI impI)
  assume wf: "well_formed s" and fi: "free_list_inv s" and run: "run_op op s = Inr s'"
    and pop: "op = Pop_back \<longrightarrow> sv_size s - 1 \<notin> set (sv_freeIndeces s)"
    and rs: "\<forall>n. op = Resize n \<longrightarrow> (\<forall>j\<in>set (sv_freeIndeces s). j < n)"
    and er: "op \<noteq> Erase_at (sv_size s)"
  show "free_list_inv s'"
  proof (cases op)
    case (Push_free v)
    with run obtain i where "push_free v s = Inr (i, s')" by (auto simp: bind_err_Inr_iff)
    with wf fi show ?thesis by (rule free_list_inv_push_free)
  next
    case (Emplace_free v)
    with run obtain i where "push_free v s = Inr (i, s')"
      by (auto simp: bind_err_Inr_iff emplace_free_eq)
    with wf fi show ?thesis by (rule free_list_inv_push_free)
  next
    case (Erase_at i)
    with run have e: "erase_at i s = Inr s'" by simp
    then have "i \<le> sv_size s" by (simp add: erase_at_Inr)
    with er Erase_at have "i < sv_size s" by (cases "i = sv_size s") simp_all
    with fi e show ?thesis by (rule free_list_inv_erase_at)
  next
    case Pop_back
    with run pop wf fi show ?thesis by (auto intro: free_list_inv_pop_back)
  next
    case (Feel_free_cells funct)
    with run have "feel_free_cells funct s = Inr s'" by simp
    with feel_free_cells_total [OF wf, of funct] have "sv_freeIndeces s' = []" by auto
    then show ?thesis by (simp add: free_list_inv_def)
  next
    case (Reserve n)
    with run wf fi show ?thesis by (auto intro: free_list_inv_reserve)
  next
    case (Resize n)
    with run rs wf fi show ?thesis by (auto intro: free_list_inv_resize)
  next
    case (Emplace_at i v)
    with run fi show ?thesis by (auto intro: free_list_inv_emplace_at)
  next
    case Clear
    with run have "clear s = Inr s'" by simp
    with clear_total [OF wf] have "sv_freeIndeces s' = []" by auto
    then show ?thesis by (simp add: free_list_inv_def)
  qed
next
  assume wf: "well_formed s" and fi: "free_list_inv s" and le: "sv_size s \<le> n"
    and r: "resize n s = Inr s'"
  have "\<forall>j\<in>set (sv_freeIndeces s). j < n" using fi le by (auto simp: free_list_inv_def)
  with wf fi r show "free_list_inv s'" by (rule free_list_inv_resize)
next
  show "free_list_inv (sparse_vector_default :: 'a sparse_vector)"
    by (simp add: free_list_inv_def sparse_vector_default_def)
next
  assume "sparse_vector_init other = Inr t"
  then have "sv_freeIndeces t = []" by (auto simp: sparse_vector_init_def init_loop)
  then show "free_list_inv t" by (simp add: free_list_inv_def)
next
  assume "well_formed s" "free_list_inv s" "sparse_vector_copy s = Inr s'"
  then show "free_list_inv s'" by (rule free_list_inv_copy)
qed

theorem free_list_invariant_preserved_witness:
  "well_formed \<lparr>sv_data = [\<lparr>cell_value = None, cell_exist = Some False\<rparr>,
                           \<lparr>cell_value = Some (20 :: nat), cell_exist = Some True\<rparr>],
                sv_size = 2, sv_capacity = 2, sv_freeIndeces = [0]\<rparr> \<and>
   free_list_inv \<lparr>sv_data = [\<lparr>cell_value = None, cell_exist = Some False\<rparr>,
                           \<lparr>cell_value = Some (20 :: nat), cell_exist = Some True\<rparr>],
                sv_size = 2, sv_capacity = 2, sv_freeIndeces = [0]\<rparr> \<and>
   run_op (Resize 4) \<lparr>sv_data = [\<lparr>cell_value = None, cell_exist = Some False\<rparr>,
                           \<lparr>cell_value = Some (20 :: nat), cell_exist = Some True\<rparr>],
                sv_size = 2, sv_capacity = 2, sv_freeIndeces = [0]\<rparr> =
     Inr \<lparr>sv_data = [\<lparr>cell_value = None, cell_exist = Some False\<rparr>,
                     \<lparr>cell_value = Some 20, cell_exist = Some True\<rparr>,
                     \<lparr>cell_value = None, cell_exist = Some False\<rparr>,
                     \<lparr>cell_value = None, cell_exist = Some False\<rparr>],
          sv_size = 4, sv_capacity = 4, sv_freeIndeces = [0, 2, 3]\<rparr> \<and>
   free_list_inv \<lparr>sv_data = [\<lparr>cell_value = None, cell_exist = Some False\<rparr>,
                     \<lparr>cell_value = Some (20 :: nat), cell_exist = Some True\<rparr>,
                     \<lparr>cell_value = None, cell_exist = Some False\<rparr>,
                     \<lparr>cell_value = None, cell_exist = Some False\<rparr>],
          sv_size = 4, sv_capacity = 4, sv_freeIndeces = [0, 2, 3]\<rparr> \<and>
   run_op Pop_back \<lparr>sv_data = [\<lparr>cell_value = None, cell_exist = Some False\<rparr>,
                           \<lparr>cell_value = Some (20 :: nat), cell_exist = Some True\<rparr>],
                sv_size = 2, sv_capacity = 2, sv_freeIndeces = [0]\<rparr> =
     Inr \<lparr>sv_data = [\<lparr>cell_value = None, cell_exist = Some False\<rparr>,
                     \<lparr>cell_value = None, cell_exist = Some False\<rparr>],
          sv_size = 1, sv_capacity = 2, sv_freeIndeces = [0]\<rparr> \<and>
   free_list_inv \<lparr>sv_data = [\<lparr>cell_value = None :: nat option, cell_exist = Some False\<rparr>,
                     \<lparr>cell_value = None, cell_exist = Some False\<rparr>],
          sv_size = 1, sv_capacity = 2, sv_freeIndeces = [0]\<rparr>"
proof -
  let ?s = "\<lparr>sv_data = [\<lparr>cell_value = None, cell_exist = Some False\<rparr>,
                           \<lparr>cell_value = Some (20 :: nat), cell_exist = Some True\<rparr>],
                sv_size = 2, sv_capacity = 2, sv_freeIndeces = [0]\<rparr>"
  let ?r = "\<lparr>sv_data = [\<lparr>cell_value = None, cell_exist = Some False\<rparr>,
                     \<lparr>cell_value = Some (20 :: nat), cell_exist = Some True\<rparr>,
                     \<lparr>cell_value = None, cell_exist = Some False\<rparr>,
                     \<lparr>cell_value = None, cell_exist = Some False\<rparr>],
          sv_size = 4, sv_capacity = 4, sv_freeIndeces = [0, 2, 3]\<rparr>"
  let ?p = "\<lparr>sv_data = [\<lparr>cell_value = None :: nat option, cell_exist = Some False\<rparr>,
                     \<lparr>cell_value = None, cell_exist = Some False\<rparr>],
          sv_size = 1, sv_capacity = 2, sv_freeIndeces = [0]\<rparr>"
  have wf: "well_formed ?s" by (auto simp: inv_eval)
  have fi: "free_list_inv ?s" by (simp add: free_list_inv_def)
  have r: "run_op (Resize 4) ?s = Inr ?r" by (simp add: sv_eval relocated_def)
  have p: "run_op Pop_back ?s = Inr ?p" by (simp add: sv_eval)
  have h1: "Resize 4 \<noteq> (Pop_back :: nat operation)" "\<forall>n. Resize 4 = (Resize n :: nat operation) \<longrightarrow> (\<forall>j\<in>set (sv_freeIndeces ?s). j < n)"
    "Resize 4 \<noteq> Erase_at (sv_size ?s)"
    by simp_all
  have h2: "sv_size ?s - 1 \<notin> set (sv_freeIndeces ?s)" "\<forall>n. Pop_back \<noteq> (Resize n :: nat operation)"
    "Pop_back \<noteq> Erase_at (sv_size ?s)"
    by simp_all
  from free_list_invariant_preserved [of ?s "Resize 4" ?r] wf fi r h1
  have a: "free_list_inv ?r" by blast
  from free_list_invariant_preserved [of ?s Pop_back ?p] wf fi p h2
  have b: "free_list_inv ?p" by blast
  from wf fi r a p b show ?thesis by blast
qed

section \<open>Index stability\<close>

lemma at_push_free:
  assumes "well_formed s" and "at i s = Inr v" and "i \<notin> set (sv_freeIndeces s)"
    and "push_free x s = Inr (j, s')"
  shows "at i s' = Inr v"
proof -
  from assms(2) have i: "i < sv_size s" "cell_exist (sv_data s ! i) = Some True"
    "cell_value (sv_data s ! i) = Some v"
    by (simp_all add: at_Inr)
  from push_free_result [OF assms(1,4)] obtain d where
    s': "s' = s\<lparr>sv_data := d[j := \<lparr>cell_value = Some x, cell_exist = Some True\<rparr>],
                    sv_size := (if sv_freeIndeces s = [] then Suc (sv_size s) else sv_size s),
                    sv_capacity := length d,
                    sv_freeIndeces := butlast (sv_freeIndeces s)\<rparr>"
    and j: "j = (if sv_freeIndeces s = [] then sv_size s else last (sv_freeIndeces s))"
    and cap: "sv_capacity s \<le> length d"
    and cells: "\<forall>k<sv_size s. cell_exist (d ! k) = cell_exist (sv_data s ! k) \<and>
                (cell_exist (sv_data s ! k) = Some True \<longrightarrow> cell_value (d ! k) = cell_value (sv_data s ! k))"
    by blast
  have ne: "j \<noteq> i"
  proof (cases "sv_freeIndeces s = []")
    case True
    then show ?thesis using j i(1) by simp
  next
    case False
    then have "last (sv_freeIndeces s) \<in> set (sv_freeIndeces s)" by simp
    then show ?thesis using j False assms(3) by auto
  qed
  have il: "i < length d" using i(1) cap assms(1) by (simp add: well_formed_def)
  have "d[j := \<lparr>cell_value = Some x, cell_exist = Some True\<rparr>] ! i = d ! i"
    using ne by (simp add: nth_list_update_neq)
  then show ?thesis using i cells il by (simp add: at_Inr s')
qed

lemma at_resize:
  assumes "well_formed s" and "at i s = Inr v" and "resize n s = Inr s'" and "i < n"
  shows "at i s' = Inr v"
proof (cases "sv_size s \<le> n")
  case False
  then have "resize n s = Inr (s\<lparr>sv_size := n\<rparr>)"
    using assms(1) by (intro resize_shrink) (simp_all add: well_formed_def)
  then have "s' = s\<lparr>sv_size := n\<rparr>" using assms(3) by simp
  then show ?thesis using assms(2,4) by (simp add: at_Inr)
next
  case True
  from assms(2) have i: "i < sv_size s" "cell_exist (sv_data s ! i) = Some True"
    "cell_value (sv_data s ! i) = Some v"
    by (simp_all add: at_Inr)
  from resize_grow [OF assms(1) True] assms(3) obtain d where
    s': "s' = s\<lparr>sv_data := d, sv_capacity := max (sv_capacity s) n,
                    sv_freeIndeces := sv_freeIndeces s @ [sv_size s..<n], sv_size := n\<rparr>"
    and len: "length d = max (sv_capacity s) n"
    and cells: "\<forall>k<sv_size s. cell_exist (d ! k) = cell_exist (sv_data s ! k) \<and>
              (cell_exist (sv_data s ! k) = Some True \<longrightarrow> cell_value (d ! k) = cell_value (sv_data s ! k))"
    by auto
  show ?thesis using i cells len assms(4) by (simp add: at_Inr s')
qed

lemma at_reserve:
  assumes "well_formed s" and "at i s = Inr v" and "reserve n s = Inr s'"
  shows "at i s' = Inr v"
proof -
  from assms(2) have i: "i < sv_size s" "cell_exist (sv_data s ! i) = Some True"
    "cell_value (sv_data s ! i) = Some v"
    by (simp_all add: at_Inr)
  from reserve_total [OF assms(1), of n] assms(3) obtain d where
    s': "s' = s\<lparr>sv_data := d, sv_capacity := max (sv_capacity s) n\<rparr>"
    and len: "length d = max (sv_capacity s) n"
    and cells: "\<forall>k<sv_size s. cell_exist (d ! k) = cell_exist (sv_data s ! k) \<and>
              (cell_exist (sv_data s ! k) = Some True \<longrightarrow> cell_value (d ! k) = cell_value (sv_data s ! k))"
    by auto
  have "sv_size s \<le> sv_capacity s" using assms(1) by (simp add: well_formed_def)
  then have "i < length d" using i(1) len by (simp add: max_def)
  then show ?thesis using i cells by (simp add: at_Inr s')
qed

lemma at_feel_free_cells:
  assumes "well_formed s" and "at i s = Inr v" and "feel_free_cells funct s = Inr s'"
  shows "at i s' = Inr v"
proof -
  from assms(2) have i: "i < sv_size s" "i < length (sv_data s)" "cell_exist (sv_data s ! i) = Some True"
    "cell_value (sv_data s ! i) = Some v"
    by (simp_all add: at_Inr)
  from feel_free_cells_total [OF assms(1), of funct] assms(3) obtain d where
    s': "s' = s\<lparr>sv_data := d, sv_freeIndeces := []\<rparr>"
    and len: "length d = length (sv_data s)"
    and cells: "\<forall>k<length d. d ! k = (if k < sv_size s \<and> cell_exist (sv_data s ! k) = Some False
                 then \<lparr>cell_value = Some (funct (free_before (sv_data s) k)), cell_exist = Some True\<rparr>
                 else sv_data s ! k)"
    by auto
  have "d ! i = sv_data s ! i" using cells i len by simp
  then show ?thesis using i len by (simp add: at_Inr s')
qed

lemma at_other_cell:
  assumes "at i s = Inr v" and "j \<noteq> i"
  shows "at i (s\<lparr>sv_data := (sv_data s)[j := c]\<rparr>) = Inr v"
  using assms by (simp add: at_Inr nth_list_update_neq)

text \<open>
  Claim C2, as stated, lets only \<open>erase_at(i)\<close>, a \<open>pop_back\<close> that removes \<open>i\<close>, \<open>clear\<close> and
  moving from the container change what \<open>at(i)\<close> returns for a live index \<open>i\<close>. Three
  operations outside that list change it. \<open>resize\<close> to a size not above \<open>i\<close> puts \<open>i\<close>
  out of range: after \<open>push_free(10)\<close>, \<open>push_free(20)\<close>, \<open>at(1)\<close> is 20 and after
  \<open>resize(1)\<close> it throws. An insertion reuses \<open>i\<close> when the free-index store lists it:
  after \<open>push_free(10)\<close>, \<open>push_free(20)\<close>, \<open>erase_at(1)\<close>, \<open>resize(1)\<close>, \<open>resize(2)\<close> the store
  is \<open>[1, 1]\<close>, \<open>push_free(30)\<close> makes \<open>at(1)\<close> return 30 and \<open>push_free(40)\<close> makes it return
  40. And \<open>emplace_at(1, 99)\<close> on the live index 1 replaces 20 by 99, through the
  inverted guard of claim C1.
\<close>

theorem index_stability_broken:
  "run_ops [Push_free 10, Push_free 20] sparse_vector_default =
     Inr \<lparr>sv_data = [\<lparr>cell_value = Some (10 :: nat), cell_exist = Some True\<rparr>,
                     \<lparr>cell_value = Some 20, cell_exist = Some True\<rparr>],
          sv_size = 2, sv_capacity = 2, sv_freeIndeces = []\<rparr> \<and>
   at 1 \<lparr>sv_data = [\<lparr>cell_value = Some (10 :: nat), cell_exist = Some True\<rparr>,
                    \<lparr>cell_value = Some 20, cell_exist = Some True\<rparr>],
         sv_size = 2, sv_capacity = 2, sv_freeIndeces = []\<rparr> = Inr 20 \<and>
   run_op (Resize 1)
        \<lparr>sv_data = [\<lparr>cell_value = Some (10 :: nat), cell_exist = Some True\<rparr>,
                    \<lparr>cell_value = Some 20, cell_exist = Some True\<rparr>],
         sv_size = 2, sv_capacity = 2, sv_freeIndeces = []\<rparr> =
     Inr \<lparr>sv_data = [\<lparr>cell_value = Some 10, cell_exist = Some True\<rparr>,
                     \<lparr>cell_value = Some 20, cell_exist = Some True\<rparr>],
          sv_size = 1, sv_capacity = 2, sv_freeIndeces = []\<rparr> \<and>
   at 1 \<lparr>sv_data = [\<lparr>cell_value = Some (10 :: nat), cell_exist = Some True\<rparr>,
                    \<lparr>cell_value = Some 20, cell_exist = Some True\<rparr>],
         sv_size = 1, sv_capacity = 2, sv_freeIndeces = []\<rparr> =
     Inl (out_of_range ''index out of sparse_vector size on at.'') \<and>
   run_op (Emplace_at 1 99)
        \<lparr>sv_data = [\<lparr>cell_value = Some (10 :: nat), cell_exist = Some True\<rparr>,
                    \<lparr>cell_value = Some 20, cell_exist = Some True\<rparr>],
         sv_size = 2, sv_capacity = 2, sv_freeIndeces = []\<rparr> =
     Inr \<lparr>sv_data = [\<lparr>cell_value = Some 10, cell_exist = Some True\<rparr>,
                     \<lparr>cell_value = Some 99, cell_exist = Some True\<rparr>],
          sv_size = 2, sv_capacity = 2, sv_freeIndeces = []\<rparr> \<and>
   at 1 \<lparr>sv_data = [\<lparr>cell_value = Some (10 :: nat), cell_exist = Some True\<rparr>,
                    \<lparr>cell_value = Some 99, cell_exist = Some True\<rparr>],
         sv_size = 2, sv_capacity = 2, sv_freeIndeces = []\<rparr> = Inr 99 \<and>
   run_ops [Push_free 10, Push_free 20, Erase_at 1, Resize 1, Resize 2, Push_free 30]
      sparse_vector_default =
     Inr \<lparr>sv_data = [\<lparr>cell_value = Some (10 :: nat), cell_exist = Some True\<rparr>,
                     \<lparr>cell_value = Some 30, cell_exist = Some True\<rparr>],
          sv_size = 2, sv_capacity = 2, sv_freeIndeces = [1]\<rparr> \<and>
   at 1 \<lparr>sv_data = [\<lparr>cell_value = Some (10 :: nat), cell_exist = Some True\<rparr>,
                    \<lparr>cell_value = Some 30, cell_exist = Some True\<rparr>],
         sv_size = 2, sv_capacity = 2, sv_freeIndeces = [1]\<rparr> = Inr 30 \<and>
   run_op (Push_free 40)
        \<lparr>sv_data = [\<lparr>cell_value = Some (10 :: nat), cell_exist = Some True\<rparr>,
                    \<lparr>cell_value = Some 30, cell_exist = Some True\<rparr>],
         sv_size = 2, sv_capacity = 2, sv_freeIndeces = [1]\<rparr> =
     Inr \<lparr>sv_data = [\<lparr>cell_value = Some 10, cell_exist = Some True\<rparr>,
                     \<lparr>cell_value = Some 40, cell_exist = Some True\<rparr>],
          sv_size = 2, sv_capacity = 2, sv_freeIndeces = []\<rparr> \<and>
   at 1 \<lparr>sv_data = [\<lparr>cell_value = Some (10 :: nat), cell_exist = Some True\<rparr>,
                    \<lparr>cell_value = Some 40, cell_exist = Some True\<rparr>],
         sv_size = 2, sv_capacity = 2, sv_freeIndeces = []\<rparr> = Inr 40"
  by (simp add: sv_eval)

text \<open>
  Claim C2, amended. On a well-formed container, for a live index \<open>i\<close> that the
  free-index store does not list (as the invariant of the store requires of a live
  index), \<open>at(i)\<close> returns the same value after any one of \<open>push_free\<close>, \<open>emplace_free\<close>,
  \<open>feel_free_cells\<close>, \<open>reserve\<close>, \<open>erase_at(j)\<close> and \<open>emplace_at(j, x)\<close> with \<open>j\<close> other than
  \<open>i\<close>, a \<open>pop_back\<close> that does not remove \<open>i\<close>, and \<open>resize(n)\<close> with \<open>n\<close> above \<open>i\<close>, when
  the operation returns normally. Nothing is stated for \<open>emplace_at(i, x)\<close>.
\<close>

theorem index_stability:
  assumes "well_formed s" and "at i s = Inr v" and "i \<notin> set (sv_freeIndeces s)"
    and "run_op op s = Inr s'"
    and "op \<noteq> Erase_at i" and "op = Pop_back \<longrightarrow> Suc i \<noteq> sv_size s" and "op \<noteq> Clear"
    and "\<forall>n. op = Resize n \<longrightarrow> i < n" and "\<forall>x. op \<noteq> Emplace_at i x"
  shows "at i s' = Inr v"
proof (cases op)
  case (Push_free x)
  with assms(4) obtain j where "push_free x s = Inr (j, s')" by (auto simp: bind_err_Inr_iff)
  with assms(1,2,3) show ?thesis by (rule at_push_free)
next
  case (Emplace_free x)
  with assms(4) obtain j where "push_free x s = Inr (j, s')"
    by (auto simp: bind_err_Inr_iff emplace_free_eq)
  with assms(1,2,3) show ?thesis by (rule at_push_free)
next
  case (Erase_at j)
  with assms(4) have "s' = s\<lparr>sv_data := (sv_data s)[j := \<lparr>cell_value = None, cell_exist = Some False\<rparr>],
            sv_freeIndeces := sv_freeIndeces s @ [j]\<rparr>"
    by (simp add: erase_at_Inr)
  moreover have "j \<noteq> i" using Erase_at assms(5) by simp
  ultimately show ?thesis using assms(2) by (simp add: at_Inr nth_list_update_neq)
next
  case Pop_back
  have i: "i < sv_size s" using assms(2) by (simp add: at_Inr)
  from Pop_back assms(4) have s': "s' = s\<lparr>sv_size := sv_size s - 1,
            sv_data := (sv_data s)[sv_size s - 1 := \<lparr>cell_value = None, cell_exist = Some False\<rparr>]\<rparr>"
    by (simp add: pop_back_Inr)
  have "i < sv_size s - 1" "sv_size s - 1 \<noteq> i" using i Pop_back assms(6) by auto
  then show ?thesis using assms(2) by (simp add: at_Inr s' nth_list_update_neq)
next
  case (Feel_free_cells funct)
  with assms(1,2,4) show ?thesis by (auto intro: at_feel_free_cells)
next
  case (Reserve n)
  with assms(1,2,4) show ?thesis by (auto intro: at_reserve)
next
  case (Resize n)
  with assms(8) have "i < n" by simp
  with Resize assms(1,2,4) show ?thesis by (auto intro: at_resize)
next
  case (Emplace_at j x)
  with assms(4) have "s' = s\<lparr>sv_data := (sv_data s)[j := \<lparr>cell_value = Some x, cell_exist = Some True\<rparr>]\<rparr>"
    by (simp add: emplace_at_Inr)
  moreover have "j \<noteq> i" using Emplace_at assms(9) by auto
  ultimately show ?thesis using assms(2) by (simp add: at_other_cell)
next
  case Clear
  with assms(7) show ?thesis by simp
qed

theorem index_stability_witness:
  "well_formed \<lparr>sv_data = [\<lparr>cell_value = None, cell_exist = Some False\<rparr>,
                           \<lparr>cell_value = Some (20 :: nat), cell_exist = Some True\<rparr>],
                sv_size = 2, sv_capacity = 2, sv_freeIndeces = [0]\<rparr> \<and>
   at 1 \<lparr>sv_data = [\<lparr>cell_value = None, cell_exist = Some False\<rparr>,
                    \<lparr>cell_value = Some (20 :: nat), cell_exist = Some True\<rparr>],
         sv_size = 2, sv_capacity = 2, sv_freeIndeces = [0]\<rparr> = Inr 20 \<and>
   run_op (Push_free 30)
        \<lparr>sv_data = [\<lparr>cell_value = None, cell_exist = Some False\<rparr>,
                    \<lparr>cell_value = Some (20 :: nat), cell_exist = Some True\<rparr>],
         sv_size = 2, sv_capacity = 2, sv_freeIndeces = [0]\<rparr> =
     Inr \<lparr>sv_data = [\<lparr>cell_value = Some 30, cell_exist = Some True\<rparr>,
                     \<lparr>cell_value = Some 20, cell_exist = Some True\<rparr>],
          sv_size = 2, sv_capacity = 2, sv_freeIndeces = []\<rparr> \<and>
   at 1 \<lparr>sv_data = [\<lparr>cell_value = Some (30 :: nat), cell_exist = Some True\<rparr>,
                    \<lparr>cell_value = Some 20, cell_exist = Some True\<rparr>],
         sv_size = 2, sv_capacity = 2, sv_freeIndeces = []\<rparr> = Inr 20 \<and>
   run_op (Push_free 40)
        \<lparr>sv_data = [\<lparr>cell_value = Some (30 :: nat), cell_exist = Some True\<rparr>,
                    \<lparr>cell_value = Some 20, cell_exist = Some True\<rparr>],
         sv_size = 2, sv_capacity = 2, sv_freeIndeces = []\<rparr> =
     Inr \<lparr>sv_data = [\<lparr>cell_value = Some 30, cell_exist = Some True\<rparr>,
                     \<lparr>cell_value = Some 20, cell_exist = Some True\<rparr>,
                     \<lparr>cell_value = Some 40, cell_exist = Some True\<rparr>,
                     \<lparr>cell_value = None, cell_exist = None\<rparr>],
          sv_size = 3, sv_capacity = 4, sv_freeIndeces = []\<rparr> \<and>
   at 1 \<lparr>sv_data = [\<lparr>cell_value = Some (30 :: nat), cell_exist = Some True\<rparr>,
                     \<lparr>cell_value = Some 20, cell_exist = Some True\<rparr>,
                     \<lparr>cell_value = Some 40, cell_exist = Some True\<rparr>,
                     \<lparr>cell_value = None, cell_exist = None\<rparr>],
          sv_size = 3, sv_capacity = 4, sv_freeIndeces = []\<rparr> = Inr 20"
proof -
  let ?s = "\<lparr>sv_data = [\<lparr>cell_value = None, cell_exist = Some False\<rparr>,
                    \<lparr>cell_value = Some (20 :: nat), cell_exist = Some True\<rparr>],
         sv_size = 2, sv_capacity = 2, sv_freeIndeces = [0]\<rparr>"
  let ?t = "\<lparr>sv_data = [\<lparr>cell_value = Some (30 :: nat), cell_exist = Some True\<rparr>,
                    \<lparr>cell_value = Some 20, cell_exist = Some True\<rparr>],
         sv_size = 2, sv_capacity = 2, sv_freeIndeces = []\<rparr>"
  let ?u = "\<lparr>sv_data = [\<lparr>cell_value = Some (30 :: nat), cell_exist = Some True\<rparr>,
                     \<lparr>cell_value = Some 20, cell_exist = Some True\<rparr>,
                     \<lparr>cell_value = Some 40, cell_exist = Some True\<rparr>,
                     \<lparr>cell_value = None, cell_exist = None\<rparr>],
          sv_size = 3, sv_capacity = 4, sv_freeIndeces = []\<rparr>"
  have wfs: "well_formed ?s" by (auto simp: inv_eval)
  have wft: "well_formed ?t" by (auto simp: inv_eval)
  have a: "at 1 ?s = Inr 20" by (simp add: sv_eval)
  have ns: "1 \<notin> set (sv_freeIndeces ?s)" by simp
  have nt: "1 \<notin> set (sv_freeIndeces ?t)" by simp
  have r1: "run_op (Push_free 30) ?s = Inr ?t" by (simp add: sv_eval)
  have r2: "run_op (Push_free 40) ?t = Inr ?u" by (simp add: sv_eval relocated_def)
  have b: "at 1 ?t = Inr 20"
    by (rule index_stability [OF wfs a ns r1]) simp_all
  have c: "at 1 ?u = Inr 20"
    by (rule index_stability [OF wft b nt r2]) simp_all
  from wfs a r1 b r2 c show ?thesis by blast
qed

end
